theory Spec2Isabelle
  imports Main
begin

section \<open>Data model\<close>

text \<open>
  The program \<^verbatim>\<open>nqueens.c\<close> keeps one \<^verbatim>\<open>Board\<close>: the size, the shift of the rising
  diagonal index, and four heap arrays. The embedding keeps the fields and their names
  (\<^verbatim>\<open>size\<close> is written \<open>size_b\<close>). An array is a list, and every read and write of a cell
  goes through \<open>rd\<close> and \<open>wr\<close>, which check the index against the length: an access
  outside the array, undefined behaviour in C, is the value \<open>Inl OutOfBounds\<close>, and it
  ends the run of every function that meets it.

  C's \<^verbatim>\<open>int\<close> (32 bits) is modelled by \<open>int\<close>, with the wrap-around of the usual
  targets written out: \<open>wrap_int v\<close> is the \<^verbatim>\<open>int\<close> that a computation with the
  mathematical result \<open>v\<close> leaves. It is applied to every sum, difference and product
  whose operands are not bounded by a test: the index expressions
  \<^verbatim>\<open>y - x + board->shift_diag45\<close> and \<^verbatim>\<open>y + x\<close>, and \<^verbatim>\<open>size - 1\<close>, \<^verbatim>\<open>size * 2 - 1\<close>
  and \<^verbatim>\<open>2 * size - 1\<close> where \<^verbatim>\<open>create_board\<close> and \<^verbatim>\<open>reset_board\<close> compute them. The
  increments \<^verbatim>\<open>++i\<close>, \<^verbatim>\<open>++x\<close>, \<^verbatim>\<open>++y\<close> stand behind a test \<^verbatim>\<open>i < bound\<close> against an
  \<^verbatim>\<open>int\<close>, and \<^verbatim>\<open>y + 1\<close> in \<^verbatim>\<open>backtrack\<close> behind the write of \<^verbatim>\<open>solution[y]\<close>, so they
  cannot overflow and are plain additions. \<^verbatim>\<open>board->size - 1\<close> in \<^verbatim>\<open>is_valid\<close> and
  \<^verbatim>\<open>print_board\<close> overflows only for the least \<^verbatim>\<open>int\<close>, where the index is outside
  \<^verbatim>\<open>solution\<close> with or without the wrap-around. The flags in \<^verbatim>\<open>col_is_free\<close> (an \<^verbatim>\<open>int\<close> array) and
  in the two diagonal arrays (\<^verbatim>\<open>char\<close> arrays) only ever hold 0 and 1; they are
  \<open>int\<close> lists, tested like C tests them (nonzero is true). The four arrays come from
  four calls of \<^verbatim>\<open>malloc\<close> and never alias.
\<close>

datatype error = OutOfBounds

definition wrap_int :: "int \<Rightarrow> int" where
  "wrap_int v = (v + 2147483648) mod 4294967296 - 2147483648"

record Board =
  size_b :: int
  shift_diag45 :: int
  solution :: "int list"
  col_is_free :: "int list"
  diag45_is_free :: "int list"
  diag135_is_free :: "int list"

definition rd :: "'a list \<Rightarrow> int \<Rightarrow> error + 'a" where
  "rd xs i = (if 0 \<le> i \<and> i < int (length xs) then Inr (xs ! nat i) else Inl OutOfBounds)"

definition wr :: "'a list \<Rightarrow> int \<Rightarrow> 'a \<Rightarrow> error + 'a list" where
  "wr xs i v = (if 0 \<le> i \<and> i < int (length xs) then Inr (xs[nat i := v]) else Inl OutOfBounds)"

text \<open>
  \<^verbatim>\<open>malloc\<close> of \<open>n\<close> cells: \<open>n\<close> cells of unspecified content (here 0; the two loops of
  \<open>create_board\<close> overwrite every cell before it is read), and no cell at all for
  \<open>n \<le> 0\<close>. The length of the diagonal arrays is the \<^verbatim>\<open>int\<close> \<^verbatim>\<open>size * 2 - 1\<close>: for a
  size above \<open>2^30\<close> it wraps to a negative number, and the arrays have no cell.
\<close>

definition malloc_cells :: "int \<Rightarrow> int list" where
  "malloc_cells n = replicate (nat n) 0"

text \<open>
  The two initialisation loops, shared by \<^verbatim>\<open>create_board\<close> (lines 22-29) and
  \<^verbatim>\<open>reset_board\<close> (lines 123-130): \<open>init_rows b i\<close> is the first loop from index \<open>i\<close>
  on, \<open>init_diags b i\<close> the second.
\<close>

function init_rows :: "Board \<Rightarrow> int \<Rightarrow> error + Board" where
  "init_rows b i =
     (if i < size_b b then
        (case wr (solution b) i (- 1) of
           Inl e \<Rightarrow> Inl e
         | Inr s \<Rightarrow>
             (case wr (col_is_free b) i 1 of
                Inl e \<Rightarrow> Inl e
              | Inr c \<Rightarrow> init_rows (b\<lparr>solution := s, col_is_free := c\<rparr>) (i + 1)))
      else Inr b)"
  by pat_completeness auto
termination
  by (relation "measure (\<lambda>(b, i). nat (size_b b - i))") auto

function init_diags :: "Board \<Rightarrow> int \<Rightarrow> error + Board" where
  "init_diags b i =
     (if i < wrap_int (wrap_int (2 * size_b b) - 1) then
        (case wr (diag45_is_free b) i 1 of
           Inl e \<Rightarrow> Inl e
         | Inr d \<Rightarrow>
             (case wr (diag135_is_free b) i 1 of
                Inl e \<Rightarrow> Inl e
              | Inr f \<Rightarrow> init_diags (b\<lparr>diag45_is_free := d, diag135_is_free := f\<rparr>) (i + 1)))
      else Inr b)"
  by pat_completeness auto
termination
  by (relation "measure (\<lambda>(b, i). nat (wrap_int (wrap_int (2 * size_b b) - 1) - i))") auto

definition reset_board :: "Board \<Rightarrow> error + Board" where
  "reset_board b = (case init_rows b 0 of Inl e \<Rightarrow> Inl e | Inr b1 \<Rightarrow> init_diags b1 0)"

definition create_board :: "int \<Rightarrow> error + Board" where
  "create_board n =
     reset_board \<lparr>size_b = n, shift_diag45 = wrap_int (n - 1),
       solution = malloc_cells n, col_is_free = malloc_cells n,
       diag45_is_free = malloc_cells (wrap_int (wrap_int (n * 2) - 1)),
       diag135_is_free = malloc_cells (wrap_int (wrap_int (n * 2) - 1))\<rparr>"

text \<open>
  \<^verbatim>\<open>print_board\<close> (lines 40-45), without the formatting: the integers it prints, in
  order. This is how the solution is read off a board.
\<close>

function print_loop :: "Board \<Rightarrow> int \<Rightarrow> int list \<Rightarrow> error + int list" where
  "print_loop b i printed =
     (if i < size_b b - 1 then
        (case rd (solution b) i of
           Inl e \<Rightarrow> Inl e
         | Inr v \<Rightarrow> print_loop b (i + 1) (printed @ [v]))
      else Inr printed)"
  by pat_completeness auto
termination
  by (relation "measure (\<lambda>(b, i, printed). nat (size_b b - 1 - i))") auto

definition print_board :: "Board \<Rightarrow> error + int list" where
  "print_board b =
     (case print_loop b 0 [] of
        Inl e \<Rightarrow> Inl e
      | Inr printed \<Rightarrow>
          (case rd (solution b) (size_b b - 1) of
             Inl e \<Rightarrow> Inl e
           | Inr v \<Rightarrow> Inr (printed @ [v])))"

text \<open>
  The placement operations (lines 52-72). \<^verbatim>\<open>&&\<close> in \<^verbatim>\<open>can_place_queen\<close> evaluates
  its right operand only if the left one is nonzero, so a later array is read only when
  the earlier flags are set.
\<close>

definition is_valid :: "Board \<Rightarrow> error + bool" where
  "is_valid b = (case rd (solution b) (size_b b - 1) of Inl e \<Rightarrow> Inl e | Inr v \<Rightarrow> Inr (v \<noteq> - 1))"

definition can_place_queen :: "Board \<Rightarrow> int \<Rightarrow> int \<Rightarrow> error + bool" where
  "can_place_queen b x y =
     (case rd (col_is_free b) x of
        Inl e \<Rightarrow> Inl e
      | Inr c \<Rightarrow>
          if c = 0 then Inr False
          else (case rd (diag45_is_free b) (wrap_int (wrap_int (y - x) + shift_diag45 b)) of
                  Inl e \<Rightarrow> Inl e
                | Inr d \<Rightarrow>
                    if d = 0 then Inr False
                    else (case rd (diag135_is_free b) (wrap_int (y + x)) of
                            Inl e \<Rightarrow> Inl e
                          | Inr f \<Rightarrow> Inr (f \<noteq> 0))))"

definition place_queen :: "Board \<Rightarrow> int \<Rightarrow> int \<Rightarrow> error + Board" where
  "place_queen b x y =
     (case wr (solution b) y x of
        Inl e \<Rightarrow> Inl e
      | Inr s \<Rightarrow>
          (case wr (col_is_free b) x 0 of
             Inl e \<Rightarrow> Inl e
           | Inr c \<Rightarrow>
               (case wr (diag45_is_free b) (wrap_int (wrap_int (y - x) + shift_diag45 b)) 0 of
                  Inl e \<Rightarrow> Inl e
                | Inr d \<Rightarrow>
                    (case wr (diag135_is_free b) (wrap_int (y + x)) 0 of
                       Inl e \<Rightarrow> Inl e
                     | Inr f \<Rightarrow>
                         Inr (b\<lparr>solution := s, col_is_free := c,
                                diag45_is_free := d, diag135_is_free := f\<rparr>)))))"

definition remove_queen :: "Board \<Rightarrow> int \<Rightarrow> int \<Rightarrow> error + Board" where
  "remove_queen b x y =
     (case wr (solution b) y (- 1) of
        Inl e \<Rightarrow> Inl e
      | Inr s \<Rightarrow>
          (case wr (col_is_free b) x 1 of
             Inl e \<Rightarrow> Inl e
           | Inr c \<Rightarrow>
               (case wr (diag45_is_free b) (wrap_int (wrap_int (y - x) + shift_diag45 b)) 1 of
                  Inl e \<Rightarrow> Inl e
                | Inr d \<Rightarrow>
                    (case wr (diag135_is_free b) (wrap_int (y + x)) 1 of
                       Inl e \<Rightarrow> Inl e
                     | Inr f \<Rightarrow>
                         Inr (b\<lparr>solution := s, col_is_free := c,
                                diag45_is_free := d, diag135_is_free := f\<rparr>)))))"

text \<open>
  \<^verbatim>\<open>backtrack\<close> (lines 81-95). \<open>backtrack_loop b y x\<close> is the \<^verbatim>\<open>for\<close> loop of the
  function from column \<open>x\<close> on. The board is passed and returned, as the C function
  mutates it through the pointer; the flag is the returned \<^verbatim>\<open>char\<close>.
\<close>

function backtrack :: "Board \<Rightarrow> int \<Rightarrow> error + (Board \<times> bool)"
  and backtrack_loop :: "Board \<Rightarrow> int \<Rightarrow> int \<Rightarrow> error + (Board \<times> bool)" where
  "backtrack b y =
     (case is_valid b of
        Inl e \<Rightarrow> Inl e
      | Inr v \<Rightarrow> if v then Inr (b, True) else backtrack_loop b y 0)"
| "backtrack_loop b y x =
     (if x < size_b b then
        (case can_place_queen b x y of
           Inl e \<Rightarrow> Inl e
         | Inr ok \<Rightarrow>
             if ok then
               (case place_queen b x y of
                  Inl e \<Rightarrow> Inl e
                | Inr b1 \<Rightarrow>
                    (case backtrack b1 (y + 1) of
                       Inl e \<Rightarrow> Inl e
                     | Inr (b2, success) \<Rightarrow>
                         if success then Inr (b2, True)
                         else (case remove_queen b2 x y of
                                 Inl e \<Rightarrow> Inl e
                               | Inr b3 \<Rightarrow> backtrack_loop b3 y (x + 1))))
             else backtrack_loop b y (x + 1))
      else Inr (b, False))"
  by pat_completeness auto

text \<open>
  The recursion of \<open>backtrack\<close> is nested: the loop goes on with the board that the
  recursive call returned. Its termination needs that a call, where it terminates, returns
  a board of the same size with a \<open>solution\<close> array of the same length. The measure is
  the number of rows from \<open>y\<close> to the end of \<open>solution\<close> (\<open>place_queen\<close> writes
  \<open>solution[y]\<close>, so a recursive call is only reached for a row inside the array), then
  the number of columns left in the loop.
\<close>

lemma wr_Inr: "wr xs i v = Inr ys \<Longrightarrow> 0 \<le> i \<and> i < int (length xs) \<and> ys = xs[nat i := v]"
  by (simp add: wr_def split: if_splits)

lemma place_queen_shape:
  assumes "place_queen b x y = Inr b'"
  shows "size_b b' = size_b b" and "length (solution b') = length (solution b)"
    and "0 \<le> y" and "y < int (length (solution b))"
  using assms by (auto simp: place_queen_def split: sum.splits dest!: wr_Inr)

lemma remove_queen_shape:
  assumes "remove_queen b x y = Inr b'"
  shows "size_b b' = size_b b" and "length (solution b') = length (solution b)"
  using assms by (auto simp: remove_queen_def split: sum.splits dest!: wr_Inr)

lemma backtrack_shape_dom_aux:
  "backtrack_backtrack_loop_dom (Inl (b, y)) \<Longrightarrow> (\<forall>b' r. backtrack b y = Inr (b', r) \<longrightarrow>
     size_b b' = size_b b \<and> length (solution b') = length (solution b))"
  "backtrack_backtrack_loop_dom (Inr (b, y, x)) \<Longrightarrow> (\<forall>b' r. backtrack_loop b y x = Inr (b', r) \<longrightarrow>
     size_b b' = size_b b \<and> length (solution b') = length (solution b))"
proof (induct b y and b y x rule: backtrack_backtrack_loop.pinduct)
  case (1 b y)
  show ?case
  proof (intro allI impI)
    fix b' r assume res: "backtrack b y = Inr (b', r)"
    note eq = backtrack.psimps[OF "1.hyps"(1)]
    show "size_b b' = size_b b \<and> length (solution b') = length (solution b)"
    proof (cases "is_valid b")
      case (Inl e)
      with res eq show ?thesis by simp
    next
      case (Inr v)
      show ?thesis
      proof (cases v)
        case True
        with Inr res eq show ?thesis by simp
      next
        case False
        with Inr res eq have "backtrack_loop b y 0 = Inr (b', r)" by simp
        with "1.hyps"(2)[OF Inr False] show ?thesis by blast
      qed
    qed
  qed
next
  case (2 b y x)
  show ?case
  proof (intro allI impI)
    fix b' r assume res: "backtrack_loop b y x = Inr (b', r)"
    note eq = backtrack_loop.psimps[OF "2.hyps"(1)]
    show "size_b b' = size_b b \<and> length (solution b') = length (solution b)"
    proof (cases "x < size_b b")
      case False
      with res eq show ?thesis by simp
    next
      case lt: True
      show ?thesis
      proof (cases "can_place_queen b x y")
        case (Inl e)
        with lt res eq show ?thesis by simp
      next
        case (Inr ok)
        show ?thesis
        proof (cases ok)
          case False
          with Inr lt res eq have "backtrack_loop b y (x + 1) = Inr (b', r)" by simp
          with "2.hyps"(4)[OF lt Inr False] show ?thesis by blast
        next
          case True
          show ?thesis
          proof (cases "place_queen b x y")
            case (Inl e)
            with True Inr lt res eq show ?thesis by simp
          next
            case pl: (Inr b1)
            show ?thesis
            proof (cases "backtrack b1 (y + 1)")
              case (Inl e)
              with pl True Inr lt res eq show ?thesis by simp
            next
              case bt: (Inr pr)
              obtain b2 success where pr: "pr = (b2, success)" by (cases pr)
              from "2.hyps"(2)[OF lt Inr True pl] bt pr
              have ih1: "size_b b2 = size_b b1 \<and> length (solution b2) = length (solution b1)"
                by blast
              show ?thesis
              proof (cases success)
                case True
                with bt pr pl \<open>ok\<close> Inr lt res eq have "b' = b2" by simp
                with ih1 place_queen_shape[OF pl] show ?thesis by simp
              next
                case False
                show ?thesis
                proof (cases "remove_queen b2 x y")
                  case (Inl e)
                  with False bt pr pl \<open>ok\<close> Inr lt res eq show ?thesis by simp
                next
                  case rm: (Inr b3)
                  with False bt pr pl \<open>ok\<close> Inr lt res eq
                  have "backtrack_loop b3 y (x + 1) = Inr (b', r)" by simp
                  with "2.hyps"(3)[OF lt Inr \<open>ok\<close> pl bt pr[symmetric] False rm]
                  have "size_b b' = size_b b3 \<and> length (solution b') = length (solution b3)"
                    by blast
                  with ih1 place_queen_shape[OF pl] remove_queen_shape[OF rm]
                  show ?thesis by simp
                qed
              qed
            qed
          qed
        qed
      qed
    qed
  qed
qed

lemma backtrack_shape_dom:
  "backtrack_backtrack_loop_dom (Inl (b, y)) \<Longrightarrow> backtrack b y = Inr (b', r) \<Longrightarrow>
     size_b b' = size_b b \<and> length (solution b') = length (solution b)"
  using backtrack_shape_dom_aux(1) by blast

lemma backtrack_total: "All backtrack_backtrack_loop_dom"
proof (relation "measures [\<lambda>v. case v of Inl (b, y) \<Rightarrow> nat (int (length (solution b)) - y)
                                        | Inr (b, y, x) \<Rightarrow> nat (int (length (solution b)) - y),
                            \<lambda>v. case v of Inl (b, y) \<Rightarrow> nat (size_b b) + 1
                                        | Inr (b, y, x) \<Rightarrow> nat (size_b b - x)]", goal_cases)
  case 1
  then show ?case by simp
next
  case (2 b y v)
  then show ?case by simp
next
  case (3 b y x ok b1)
  then show ?case using place_queen_shape[OF 3(4)] by simp
next
  case (4 b y x ok b1 r b2 success b3)
  from 4(5,6,7) have bt: "backtrack b1 (y + 1) = Inr (b2, False)" by auto
  show ?case 
    using 4(1) place_queen_shape[OF 4(4)] remove_queen_shape[OF 4(8)] backtrack_shape_dom[OF 4(9) bt]
    by simp
next
  case (5 b y x ok)
  then show ?case by simp
qed

termination backtrack
  by (rule backtrack_total)

declare backtrack.simps [simp del] backtrack_loop.simps [simp del]

subsection \<open>Las Vegas search\<close>

text \<open>
  \<^verbatim>\<open>solve_lv\<close> (lines 105-116). \<^verbatim>\<open>rand()\<close> is a stream of naturals \<open>rng\<close> and a
  position \<open>s\<close> in it: a call returns \<open>rng s\<close> and moves to \<open>Suc s\<close>. \<open>available_loop\<close>
  is the inner loop that collects the columns of row \<open>y\<close> where a queen can be placed;
  the list is the filled part \<^verbatim>\<open>available_cols[0..index)\<close> of the local array (the loop
  writes cell \<^verbatim>\<open>index\<close> \<open>\<le> x < size\<close>, inside the array). \<open>solve_lv_loop\<close> is the outer
  loop from row \<open>y\<close> on, followed by the call of \<open>backtrack\<close>.
\<close>

function available_loop :: "Board \<Rightarrow> int \<Rightarrow> int \<Rightarrow> int list \<Rightarrow> error + int list" where
  "available_loop b y x available_cols =
     (if x < size_b b then
        (case can_place_queen b x y of
           Inl e \<Rightarrow> Inl e
         | Inr ok \<Rightarrow> available_loop b y (x + 1) (if ok then available_cols @ [x] else available_cols))
      else Inr available_cols)"
  by pat_completeness auto
termination
  by (relation "measure (\<lambda>(b, y, x, cols). nat (size_b b - x))") auto

function solve_lv_loop :: "(nat \<Rightarrow> nat) \<Rightarrow> Board \<Rightarrow> int \<Rightarrow> int \<Rightarrow> nat \<Rightarrow> error + (Board \<times> bool \<times> nat)" where
  "solve_lv_loop rng b random_queens y s =
     (if y < random_queens then
        (case available_loop b y 0 [] of
           Inl e \<Rightarrow> Inl e
         | Inr available_cols \<Rightarrow>
             if length available_cols = 0 then Inr (b, False, s)
             else (case place_queen b (available_cols ! (rng s mod length available_cols)) y of
                     Inl e \<Rightarrow> Inl e
                   | Inr b1 \<Rightarrow> solve_lv_loop rng b1 random_queens (y + 1) (Suc s)))
      else (case backtrack b random_queens of
              Inl e \<Rightarrow> Inl e
            | Inr (b1, success) \<Rightarrow> Inr (b1, success, s)))"
  by pat_completeness auto
termination
  by (relation "measure (\<lambda>(rng, b, random_queens, y, s). nat (random_queens - y))") auto

definition solve_lv :: "(nat \<Rightarrow> nat) \<Rightarrow> Board \<Rightarrow> int \<Rightarrow> nat \<Rightarrow> error + (Board \<times> bool \<times> nat)" where
  "solve_lv rng b random_queens s = solve_lv_loop rng b random_queens 0 s"

text \<open>
  \<^verbatim>\<open>repeat_lv\<close> (lines 139-145) is a \<^verbatim>\<open>do ... while\<close> loop without a bound, so it is a
  partial function: \<open>None\<close> means that the loop never ends, \<open>Some (Inl e)\<close> an
  out-of-bounds access, \<open>Some (Inr (board, trials, s))\<close> a normal return. The counter
  \<^verbatim>\<open>*trials\<close> is a C \<^verbatim>\<open>int\<close> and no test bounds it; its increment wraps
  (\<open>wrap_int\<close>).
\<close>

partial_function (option) repeat_lv_loop ::
  "(nat \<Rightarrow> nat) \<Rightarrow> Board \<Rightarrow> int \<Rightarrow> int \<Rightarrow> nat \<Rightarrow> (error + (Board \<times> int \<times> nat)) option" where
  "repeat_lv_loop rng b random_queens trials s =
     (case reset_board b of
        Inl e \<Rightarrow> Some (Inl e)
      | Inr b0 \<Rightarrow>
          (case solve_lv rng b0 random_queens s of
             Inl e \<Rightarrow> Some (Inl e)
           | Inr (b1, success, s1) \<Rightarrow>
               if success then Some (Inr (b1, wrap_int (trials + 1), s1))
               else repeat_lv_loop rng b1 random_queens (wrap_int (trials + 1)) s1))"

definition repeat_lv :: "(nat \<Rightarrow> nat) \<Rightarrow> Board \<Rightarrow> int \<Rightarrow> nat \<Rightarrow> (error + (Board \<times> int \<times> nat)) option" where
  "repeat_lv rng b random_queens s = repeat_lv_loop rng b random_queens 0 s"

declare init_rows.simps [simp del] init_diags.simps [simp del] print_loop.simps [simp del]
  available_loop.simps [simp del] solve_lv_loop.simps [simp del]

section \<open>Specification-level notions\<close>

text \<open>
  The board of size \<open>n\<close> with every row unplaced and every column and diagonal free, and
  the shape of a board of size \<open>n > 0\<close>: arrays of lengths \<open>n\<close>, \<open>n\<close>, \<open>2n - 1\<close> and
  \<open>2n - 1\<close>, the shift \<open>n - 1\<close>, and a diagonal length \<open>2n - 1\<close> that is a C \<^verbatim>\<open>int\<close>
  (the program computes that length as an \<^verbatim>\<open>int\<close>, so no board of the program has
  longer diagonal arrays). \<open>created_board n\<close> is the board that \<open>create_board n\<close>
  returns for any \<open>n\<close>, with the wrap-around of \<^verbatim>\<open>size - 1\<close> and \<^verbatim>\<open>size * 2 - 1\<close>.
\<close>

definition empty_board :: "int \<Rightarrow> Board" where
  "empty_board n =
     \<lparr>size_b = n, shift_diag45 = n - 1,
      solution = replicate (nat n) (- 1), col_is_free = replicate (nat n) 1,
      diag45_is_free = replicate (nat (2 * n - 1)) 1,
      diag135_is_free = replicate (nat (2 * n - 1)) 1\<rparr>"

definition created_board :: "int \<Rightarrow> Board" where
  "created_board n =
     \<lparr>size_b = n, shift_diag45 = wrap_int (n - 1),
      solution = replicate (nat n) (- 1), col_is_free = replicate (nat n) 1,
      diag45_is_free = replicate (nat (wrap_int (wrap_int (n * 2) - 1))) 1,
      diag135_is_free = replicate (nat (wrap_int (wrap_int (n * 2) - 1))) 1\<rparr>"

definition wf_board :: "Board \<Rightarrow> bool" where
  "wf_board b \<longleftrightarrow>
     0 < size_b b \<and> 2 * size_b b - 1 \<le> 2147483647 \<and>
     shift_diag45 b = size_b b - 1 \<and>
     int (length (solution b)) = size_b b \<and>
     int (length (col_is_free b)) = size_b b \<and>
     int (length (diag45_is_free b)) = 2 * size_b b - 1 \<and>
     int (length (diag135_is_free b)) = 2 * size_b b - 1"

text \<open>
  The invariant of the tracking arrays. \<open>lockstep\<close> is the statement that the three
  arrays mirror \<open>solution\<close>; \<open>safe\<close> says that no two placed queens share a column
  or a diagonal; \<open>row_order b y\<close> that exactly the rows below \<open>y\<close> are placed.
\<close>

definition flags_ok :: "Board \<Rightarrow> bool" where
  "flags_ok b \<longleftrightarrow>
     set (col_is_free b) \<subseteq> {0, 1} \<and> set (diag45_is_free b) \<subseteq> {0, 1}
     \<and> set (diag135_is_free b) \<subseteq> {0, 1}"

definition entries_ok :: "Board \<Rightarrow> bool" where
  "entries_ok b \<longleftrightarrow>
     (\<forall>y\<in>{0..<size_b b}. solution b ! nat y = - 1
         \<or> (0 \<le> solution b ! nat y \<and> solution b ! nat y < size_b b))"

definition lockstep :: "Board \<Rightarrow> bool" where
  "lockstep b \<longleftrightarrow>
     (\<forall>x\<in>{0..<size_b b}.
        (col_is_free b ! nat x = 0) = (\<exists>y\<in>{0..<size_b b}. solution b ! nat y = x)) \<and>
     (\<forall>d\<in>{0..<2 * size_b b - 1}.
        (diag45_is_free b ! nat d = 0) =
        (\<exists>y\<in>{0..<size_b b}. solution b ! nat y \<noteq> - 1
            \<and> y - solution b ! nat y + (size_b b - 1) = d)) \<and>
     (\<forall>d\<in>{0..<2 * size_b b - 1}.
        (diag135_is_free b ! nat d = 0) =
        (\<exists>y\<in>{0..<size_b b}. solution b ! nat y \<noteq> - 1 \<and> y + solution b ! nat y = d))"

definition safe :: "Board \<Rightarrow> bool" where
  "safe b \<longleftrightarrow>
     (\<forall>y\<in>{0..<size_b b}. \<forall>y'\<in>{0..<size_b b}.
        y \<noteq> y' \<and> solution b ! nat y \<noteq> - 1 \<and> solution b ! nat y' \<noteq> - 1 \<longrightarrow>
        solution b ! nat y \<noteq> solution b ! nat y'
        \<and> y - solution b ! nat y \<noteq> y' - solution b ! nat y'
        \<and> y + solution b ! nat y \<noteq> y' + solution b ! nat y')"

definition consistent :: "Board \<Rightarrow> bool" where
  "consistent b \<longleftrightarrow> wf_board b \<and> flags_ok b \<and> entries_ok b \<and> lockstep b \<and> safe b"

definition row_order :: "Board \<Rightarrow> int \<Rightarrow> bool" where
  "row_order b y \<longleftrightarrow>
     0 \<le> y \<and> y \<le> size_b b
     \<and> (\<forall>i\<in>{0..<y}. solution b ! nat i \<noteq> - 1)
     \<and> (\<forall>i\<in>{y..<size_b b}. solution b ! nat i = - 1)"

text \<open>
  Boards reached from the created board by place and remove operations.
  \<open>ops_reach\<close> allows any square whose row is unplaced; \<open>search_reach n b y\<close> is the
  discipline of \<open>backtrack\<close> and \<open>solve_lv\<close>: the next queen goes to row \<open>y\<close>, the number
  of rows placed so far, at a column \<open>0 \<le> x < size\<close> for which \<open>can_place_queen\<close> holds,
  and a remove takes back the queen of the last placed row.
\<close>

inductive ops_reach :: "int \<Rightarrow> Board \<Rightarrow> bool" for n :: int where
  fresh: "0 < n \<Longrightarrow> create_board n = Inr b \<Longrightarrow> ops_reach n b"
| place: "ops_reach n b \<Longrightarrow> 0 \<le> x \<Longrightarrow> x < n \<Longrightarrow> 0 \<le> y \<Longrightarrow> y < n \<Longrightarrow>
     rd (solution b) y = Inr (- 1) \<Longrightarrow> can_place_queen b x y = Inr True \<Longrightarrow>
     place_queen b x y = Inr b' \<Longrightarrow> ops_reach n b'"
| remove: "ops_reach n b \<Longrightarrow> 0 \<le> x \<Longrightarrow> x < n \<Longrightarrow> 0 \<le> y \<Longrightarrow> y < n \<Longrightarrow>
     rd (solution b) y = Inr x \<Longrightarrow> remove_queen b x y = Inr b' \<Longrightarrow> ops_reach n b'"

code_pred ops_reach .

inductive search_reach :: "int \<Rightarrow> Board \<Rightarrow> int \<Rightarrow> bool" for n :: int where
  start: "0 < n \<Longrightarrow> create_board n = Inr b \<Longrightarrow> search_reach n b 0"
| place: "search_reach n b y \<Longrightarrow> 0 \<le> x \<Longrightarrow> x < size_b b \<Longrightarrow>
     can_place_queen b x y = Inr True \<Longrightarrow> place_queen b x y = Inr b' \<Longrightarrow>
     search_reach n b' (y + 1)"
| remove: "search_reach n b (y + 1) \<Longrightarrow> rd (solution b) y = Inr x \<Longrightarrow>
     remove_queen b x y = Inr b' \<Longrightarrow> search_reach n b' y"

code_pred search_reach .

text \<open>
  A solution of the \<open>n\<close>-queens problem, as a list of columns indexed by row, checked
  without the tracking arrays; and a list that agrees with a board on the rows below \<open>y\<close>.
\<close>

definition no_conflict :: "int list \<Rightarrow> bool" where
  "no_conflict sol \<longleftrightarrow>
     (\<forall>j\<in>{0..<length sol}. \<forall>i\<in>{0..<j}.
        sol ! i \<noteq> sol ! j
        \<and> int i - sol ! i \<noteq> int j - sol ! j
        \<and> int i + sol ! i \<noteq> int j + sol ! j)"

definition is_solution :: "int \<Rightarrow> int list \<Rightarrow> bool" where
  "is_solution n sol \<longleftrightarrow>
     int (length sol) = n \<and> (\<forall>x\<in>set sol. 0 \<le> x \<and> x < n) \<and> no_conflict sol"

definition agrees :: "Board \<Rightarrow> int \<Rightarrow> int list \<Rightarrow> bool" where
  "agrees b y sol \<longleftrightarrow> (\<forall>i\<in>{0..<y}. sol ! nat i = solution b ! nat i)"

text \<open>
  Sequences of place and remove operations. \<open>well_nested st ops\<close> runs a stack of the
  open placements: a remove must name the square on top of the stack, and the stack is
  empty at the end. \<open>pre_ok b ops\<close> checks, along the run from \<open>b\<close>, that every place is
  at a square inside the board for which \<open>can_place_queen\<close> holds. \<open>unwound b st b'\<close>
  describes the board after the open placements \<open>st\<close> of \<open>b\<close> have been taken back; the
  diagonal cells of a square are the ones that \<open>place_queen\<close> and \<open>remove_queen\<close> write.
\<close>

datatype board_op = Place int int | Remove int int

fun run_ops :: "Board \<Rightarrow> board_op list \<Rightarrow> error + Board" where
  "run_ops b [] = Inr b"
| "run_ops b (Place x y # ops) =
     (case place_queen b x y of Inl e \<Rightarrow> Inl e | Inr b' \<Rightarrow> run_ops b' ops)"
| "run_ops b (Remove x y # ops) =
     (case remove_queen b x y of Inl e \<Rightarrow> Inl e | Inr b' \<Rightarrow> run_ops b' ops)"

fun well_nested :: "(int \<times> int) list \<Rightarrow> board_op list \<Rightarrow> bool" where
  "well_nested st [] = (st = [])"
| "well_nested st (Place x y # ops) = well_nested ((x, y) # st) ops"
| "well_nested [] (Remove x y # ops) = False"
| "well_nested ((x', y') # st) (Remove x y # ops) = (x = x' \<and> y = y' \<and> well_nested st ops)"

fun pre_ok :: "Board \<Rightarrow> board_op list \<Rightarrow> bool" where
  "pre_ok b [] = True"
| "pre_ok b (Place x y # ops) =
     (0 \<le> x \<and> x < size_b b \<and> 0 \<le> y \<and> y < size_b b \<and> can_place_queen b x y = Inr True
      \<and> (case place_queen b x y of Inl e \<Rightarrow> False | Inr b' \<Rightarrow> pre_ok b' ops))"
| "pre_ok b (Remove x y # ops) =
     (case remove_queen b x y of Inl e \<Rightarrow> False | Inr b' \<Rightarrow> pre_ok b' ops)"

definition unwound :: "Board \<Rightarrow> (int \<times> int) list \<Rightarrow> Board \<Rightarrow> bool" where
  "unwound b st b' \<longleftrightarrow>
     size_b b' = size_b b \<and> shift_diag45 b' = shift_diag45 b
     \<and> length (solution b') = length (solution b)
     \<and> length (col_is_free b') = length (col_is_free b)
     \<and> length (diag45_is_free b') = length (diag45_is_free b)
     \<and> length (diag135_is_free b') = length (diag135_is_free b)
     \<and> (\<forall>i<length (col_is_free b). col_is_free b' ! i =
           (if i \<in> (\<lambda>p. nat (fst p)) ` set st then 1 else col_is_free b ! i))
     \<and> (\<forall>i<length (diag45_is_free b). diag45_is_free b' ! i =
           (if i \<in> (\<lambda>p. nat (wrap_int (wrap_int (snd p - fst p) + shift_diag45 b))) ` set st then 1
            else diag45_is_free b ! i))
     \<and> (\<forall>i<length (diag135_is_free b). diag135_is_free b' ! i =
           (if i \<in> (\<lambda>p. nat (wrap_int (snd p + fst p))) ` set st then 1 else diag135_is_free b ! i))
     \<and> (\<forall>i<length (solution b). solution b' ! i = - 1
           \<or> (solution b' ! i = solution b ! i \<and> i \<notin> (\<lambda>p. nat (snd p)) ` set st))"

text \<open>
  The iterations of the random-prefix loop of \<open>solve_lv\<close>: from the loop state
  (board, row, random position) \<open>c\<close>, one more iteration places a queen in row \<open>y\<close> at
  the column drawn from the available ones.
\<close>

inductive prefix_reaches ::
  "(nat \<Rightarrow> nat) \<Rightarrow> int \<Rightarrow> Board \<times> int \<times> nat \<Rightarrow> Board \<times> int \<times> nat \<Rightarrow> bool"
  for rng :: "nat \<Rightarrow> nat" and random_queens :: int and c :: "Board \<times> int \<times> nat" where
  here: "prefix_reaches rng random_queens c c"
| step: "prefix_reaches rng random_queens c (b, y, s) \<Longrightarrow> y < random_queens \<Longrightarrow>
     available_loop b y 0 [] = Inr available_cols \<Longrightarrow> length available_cols \<noteq> 0 \<Longrightarrow>
     place_queen b (available_cols ! (rng s mod length available_cols)) y = Inr b1 \<Longrightarrow>
     prefix_reaches rng random_queens c (b1, y + 1, Suc s)"

code_pred prefix_reaches .

section \<open>Array access and board construction\<close>

lemma rd_eq_Inr: "rd xs i = Inr v \<longleftrightarrow> 0 \<le> i \<and> i < int (length xs) \<and> v = xs ! nat i"
  by (auto simp: rd_def)

lemma rd_eq_Inl: "rd xs i = Inl e \<longleftrightarrow> \<not> (0 \<le> i \<and> i < int (length xs))"
  by (cases e) (auto simp: rd_def)

lemma wr_eq_Inr: "wr xs i v = Inr ys \<longleftrightarrow> 0 \<le> i \<and> i < int (length xs) \<and> ys = xs[nat i := v]"
  by (auto simp: wr_def)

lemma rd_in: "0 \<le> i \<Longrightarrow> i < int (length xs) \<Longrightarrow> rd xs i = Inr (xs ! nat i)"
  by (simp add: rd_def)

lemma wr_in: "0 \<le> i \<Longrightarrow> i < int (length xs) \<Longrightarrow> wr xs i v = Inr (xs[nat i := v])"
  by (simp add: wr_def)

lemma wrap_int_id: "- 2147483648 \<le> v \<Longrightarrow> v \<le> 2147483647 \<Longrightarrow> wrap_int v = v"
  by (simp add: wrap_int_def)

lemma wrap_int_range: "- 2147483648 \<le> wrap_int v" "wrap_int v \<le> 2147483647"
  by (simp_all add: wrap_int_def)

lemma wrap_int_add_left: "wrap_int (wrap_int a + c) = wrap_int (a + c)"
proof -
  have "(wrap_int a + c + 2147483648) mod 4294967296 = (a + c + 2147483648) mod 4294967296"
  proof -
    have "wrap_int a + c + 2147483648 = (a + 2147483648) mod 4294967296 + c"
      by (simp add: wrap_int_def)
    also have "\<dots> mod 4294967296 = (a + 2147483648 + c) mod 4294967296"
      by (rule mod_add_left_eq)
    finally show ?thesis by (simp add: ac_simps)
  qed
  then show ?thesis by (simp add: wrap_int_def)
qed

lemma wrap_int_diff_left: "wrap_int (wrap_int a - c) = wrap_int (a - c)"
  using wrap_int_add_left[of a "- c"] by simp

lemma init_rows_spec:
  "int (length (solution b)) = max 0 (size_b b) \<Longrightarrow> int (length (col_is_free b)) = max 0 (size_b b) \<Longrightarrow> 0 \<le> i \<Longrightarrow>
   \<exists>s c. init_rows b i = Inr (b\<lparr>solution := s, col_is_free := c\<rparr>)
     \<and> length s = length (solution b) \<and> length c = length (col_is_free b)
     \<and> (\<forall>j<length s. s ! j = (if int j < i then solution b ! j else - 1))
     \<and> (\<forall>j<length c. c ! j = (if int j < i then col_is_free b ! j else 1))"
proof (induct b i rule: init_rows.induct)
  case (1 b i)
  show ?case
  proof (cases "i < size_b b")
    case False
    then have "init_rows b i = Inr (b\<lparr>solution := solution b, col_is_free := col_is_free b\<rparr>)"
      by (subst init_rows.simps) simp
    moreover from False 1(2,3,4) have "\<forall>j<length (solution b). int j < i"
      and "\<forall>j<length (col_is_free b). int j < i" by auto
    ultimately show ?thesis
      apply -
      apply (rule exI[of _ "solution b"])
      apply (rule exI[of _ "col_is_free b"])
      apply simp
      done
  next
    case True
    let ?s = "(solution b)[nat i := - 1]" and ?c = "(col_is_free b)[nat i := 1]"
    let ?b = "b\<lparr>solution := ?s, col_is_free := ?c\<rparr>"
    from True 1(2,3,4) have w: "wr (solution b) i (- 1) = Inr ?s" "wr (col_is_free b) i 1 = Inr ?c"
      by (simp_all add: wr_in)
    from 1(1)[OF True w(1) w(2)] 1(2,3,4)
    obtain s c where r: "init_rows ?b (i + 1) = Inr (?b\<lparr>solution := s, col_is_free := c\<rparr>)"
      and l: "length s = length (solution b)" "length c = length (col_is_free b)"
      and e: "\<forall>j<length s. s ! j = (if int j < i + 1 then ?s ! j else - 1)"
             "\<forall>j<length c. c ! j = (if int j < i + 1 then ?c ! j else 1)"
      by auto
    have eq: "init_rows b i = Inr (b\<lparr>solution := s, col_is_free := c\<rparr>)"
      using True w r by (subst init_rows.simps) simp
    have "\<forall>j<length s. s ! j = (if int j < i then solution b ! j else - 1)"
      using e(1) l 1(4) by (auto simp: nth_list_update)
    moreover have "\<forall>j<length c. c ! j = (if int j < i then col_is_free b ! j else 1)"
      using e(2) l 1(4) by (auto simp: nth_list_update)
    ultimately show ?thesis using eq l by blast
  qed
qed

lemma init_diags_spec:
  "int (length (diag45_is_free b)) = max 0 (wrap_int (wrap_int (2 * size_b b) - 1)) \<Longrightarrow>
   int (length (diag135_is_free b)) = max 0 (wrap_int (wrap_int (2 * size_b b) - 1)) \<Longrightarrow> 0 \<le> i \<Longrightarrow>
   \<exists>d f. init_diags b i = Inr (b\<lparr>diag45_is_free := d, diag135_is_free := f\<rparr>)
     \<and> length d = length (diag45_is_free b) \<and> length f = length (diag135_is_free b)
     \<and> (\<forall>j<length d. d ! j = (if int j < i then diag45_is_free b ! j else 1))
     \<and> (\<forall>j<length f. f ! j = (if int j < i then diag135_is_free b ! j else 1))"
proof (induct b i rule: init_diags.induct)
  case (1 b i)
  let ?L = "wrap_int (wrap_int (2 * size_b b) - 1)"
  show ?case
  proof (cases "i < ?L")
    case False
    then have "init_diags b i = Inr (b\<lparr>diag45_is_free := diag45_is_free b, diag135_is_free := diag135_is_free b\<rparr>)"
      by (subst init_diags.simps) simp
    moreover from False 1(2,3,4) have "\<forall>j<length (diag45_is_free b). int j < i"
      and "\<forall>j<length (diag135_is_free b). int j < i" by auto
    ultimately show ?thesis
      apply -
      apply (rule exI[of _ "diag45_is_free b"])
      apply (rule exI[of _ "diag135_is_free b"])
      apply simp
      done
  next
    case True
    let ?d = "(diag45_is_free b)[nat i := 1]" and ?f = "(diag135_is_free b)[nat i := 1]"
    let ?b = "b\<lparr>diag45_is_free := ?d, diag135_is_free := ?f\<rparr>"
    from True 1(2,3,4) have w: "wr (diag45_is_free b) i 1 = Inr ?d" "wr (diag135_is_free b) i 1 = Inr ?f"
      by (simp_all add: wr_in)
    from 1(1)[OF True w(1) w(2)] 1(2,3,4)
    obtain d f where r: "init_diags ?b (i + 1) = Inr (?b\<lparr>diag45_is_free := d, diag135_is_free := f\<rparr>)"
      and l: "length d = length (diag45_is_free b)" "length f = length (diag135_is_free b)"
      and e: "\<forall>j<length d. d ! j = (if int j < i + 1 then ?d ! j else 1)"
             "\<forall>j<length f. f ! j = (if int j < i + 1 then ?f ! j else 1)"
      by auto
    have eq: "init_diags b i = Inr (b\<lparr>diag45_is_free := d, diag135_is_free := f\<rparr>)"
      using True w r by (subst init_diags.simps) simp
    have "\<forall>j<length d. d ! j = (if int j < i then diag45_is_free b ! j else 1)"
      using e(1) l 1(4) by (auto simp: nth_list_update)
    moreover have "\<forall>j<length f. f ! j = (if int j < i then diag135_is_free b ! j else 1)"
      using e(2) l 1(4) by (auto simp: nth_list_update)
    ultimately show ?thesis using eq l by blast
  qed
qed

lemma all_nth_replicate: "length xs = n \<Longrightarrow> \<forall>j<length xs. xs ! j = v \<Longrightarrow> xs = replicate n v"
  by (auto simp: list_eq_iff_nth_eq)

lemma reset_board_shape:
  assumes "int (length (solution b)) = max 0 (size_b b)"
    and "int (length (col_is_free b)) = max 0 (size_b b)"
    and "int (length (diag45_is_free b)) = max 0 (wrap_int (wrap_int (2 * size_b b) - 1))"
    and "int (length (diag135_is_free b)) = max 0 (wrap_int (wrap_int (2 * size_b b) - 1))"
  shows "reset_board b =
     Inr (b\<lparr>solution := replicate (nat (size_b b)) (- 1),
            col_is_free := replicate (nat (size_b b)) 1,
            diag45_is_free := replicate (nat (wrap_int (wrap_int (2 * size_b b) - 1))) 1,
            diag135_is_free := replicate (nat (wrap_int (wrap_int (2 * size_b b) - 1))) 1\<rparr>)"
proof -
  let ?L = "wrap_int (wrap_int (2 * size_b b) - 1)"
  from init_rows_spec[OF assms(1,2), of 0]
  obtain s c where r: "init_rows b 0 = Inr (b\<lparr>solution := s, col_is_free := c\<rparr>)"
    and l: "length s = length (solution b)" "length c = length (col_is_free b)"
    and e: "\<forall>j<length s. s ! j = - 1" "\<forall>j<length c. c ! j = 1"
    by auto
  let ?b = "b\<lparr>solution := s, col_is_free := c\<rparr>"
  from init_diags_spec[of ?b 0] assms(3,4)
  obtain d f where r2: "init_diags ?b 0 = Inr (?b\<lparr>diag45_is_free := d, diag135_is_free := f\<rparr>)"
    and l2: "length d = length (diag45_is_free b)" "length f = length (diag135_is_free b)"
    and e2: "\<forall>j<length d. d ! j = 1" "\<forall>j<length f. f ! j = 1"
    by auto
  have s: "s = replicate (nat (size_b b)) (- 1)"
    using l(1) e(1) assms(1) by (intro all_nth_replicate) auto
  have c: "c = replicate (nat (size_b b)) 1"
    using l(2) e(2) assms(2) by (intro all_nth_replicate) auto
  have d: "d = replicate (nat ?L) 1"
    using l2(1) e2(1) assms(3) by (intro all_nth_replicate) auto
  have f: "f = replicate (nat ?L) 1"
    using l2(2) e2(2) assms(4) by (intro all_nth_replicate) auto
  show ?thesis
    unfolding reset_board_def r using r2
    by (simp add: s c d f)
qed

lemma create_board_created: "create_board n = Inr (created_board n)"
  unfolding create_board_def
  by (subst reset_board_shape) (simp_all add: malloc_cells_def created_board_def mult.commute)

lemma created_board_small:
  assumes "- 1073741824 < n" and "n \<le> 1073741824"
  shows "created_board n = empty_board n"
proof -
  from assms have "wrap_int (n - 1) = n - 1" by (intro wrap_int_id) simp_all
  moreover from assms have "wrap_int (n * 2 - 1) = n * 2 - 1" by (intro wrap_int_id) simp_all
  ultimately show ?thesis
    by (simp add: created_board_def empty_board_def wrap_int_diff_left mult.commute)
qed

lemma create_board_eq:
  "- 1073741824 < n \<Longrightarrow> n \<le> 1073741824 \<Longrightarrow> create_board n = Inr (empty_board n)"
  by (simp add: create_board_created created_board_small)

lemma wf_board_wrap:
  assumes "wf_board b"
  shows "wrap_int (size_b b - 1) = size_b b - 1"
    and "wrap_int (wrap_int (2 * size_b b) - 1) = 2 * size_b b - 1"
proof -
  from assms have n: "0 < size_b b" "2 * size_b b - 1 \<le> 2147483647" by (simp_all add: wf_board_def)
  then show "wrap_int (size_b b - 1) = size_b b - 1" by (intro wrap_int_id) simp_all
  from n have "wrap_int (2 * size_b b - 1) = 2 * size_b b - 1" by (intro wrap_int_id) simp_all
  then show "wrap_int (wrap_int (2 * size_b b) - 1) = 2 * size_b b - 1"
    by (simp add: wrap_int_diff_left)
qed

lemma reset_board_wf: "wf_board b \<Longrightarrow> reset_board b = Inr (empty_board (size_b b))"
proof -
  assume wf: "wf_board b"
  note w = wf_board_wrap[OF wf]
  from wf have sh: "shift_diag45 b = size_b b - 1" by (simp add: wf_board_def)
  have "reset_board b =
     Inr (b\<lparr>solution := replicate (nat (size_b b)) (- 1),
            col_is_free := replicate (nat (size_b b)) 1,
            diag45_is_free := replicate (nat (wrap_int (wrap_int (2 * size_b b) - 1))) 1,
            diag135_is_free := replicate (nat (wrap_int (wrap_int (2 * size_b b) - 1))) 1\<rparr>)"
    using wf by (intro reset_board_shape) (simp_all add: w wf_board_def)
  then show ?thesis using sh by (simp add: w empty_board_def)
qed

lemma wf_empty_board: "0 < n \<Longrightarrow> n \<le> 1073741824 \<Longrightarrow> wf_board (empty_board n)"
  by (simp add: wf_board_def empty_board_def)

section \<open>The placement operations on a well-formed board\<close>

lemma diag_index_bounds:
  assumes "wf_board b" "0 \<le> x" "x < size_b b" "0 \<le> y" "y < size_b b"
  shows "0 \<le> y - x + shift_diag45 b" "y - x + shift_diag45 b < int (length (diag45_is_free b))"
    "0 \<le> y + x" "y + x < int (length (diag135_is_free b))"
  using assms by (auto simp: wf_board_def)

lemma diag_index_wrap:
  assumes "wf_board b" "0 \<le> x" "x < size_b b" "0 \<le> y" "y < size_b b"
  shows "wrap_int (wrap_int (y - x) + shift_diag45 b) = y - x + shift_diag45 b"
    and "wrap_int (y + x) = y + x"
proof -
  from assms have n: "2 * size_b b - 1 \<le> 2147483647" and sh: "shift_diag45 b = size_b b - 1"
    by (simp_all add: wf_board_def)
  from assms(2-5) n sh have "wrap_int (y - x + shift_diag45 b) = y - x + shift_diag45 b"
    by (intro wrap_int_id) simp_all
  then show "wrap_int (wrap_int (y - x) + shift_diag45 b) = y - x + shift_diag45 b"
    by (simp add: wrap_int_add_left)
  from assms(2-5) n show "wrap_int (y + x) = y + x" by (intro wrap_int_id) simp_all
qed

lemma can_place_queen_wf:
  assumes "wf_board b" "0 \<le> x" "x < size_b b" "0 \<le> y" "y < size_b b"
  shows "can_place_queen b x y =
     Inr (col_is_free b ! nat x \<noteq> 0 \<and> diag45_is_free b ! nat (y - x + shift_diag45 b) \<noteq> 0
          \<and> diag135_is_free b ! nat (y + x) \<noteq> 0)"
proof -
  have "rd (col_is_free b) x = Inr (col_is_free b ! nat x)"
    using assms by (simp add: rd_in wf_board_def)
  moreover have "rd (diag45_is_free b) (y - x + shift_diag45 b) = Inr (diag45_is_free b ! nat (y - x + shift_diag45 b))"
    using diag_index_bounds(1,2)[OF assms] by (rule rd_in)
  moreover have "rd (diag135_is_free b) (y + x) = Inr (diag135_is_free b ! nat (y + x))"
    using diag_index_bounds(3,4)[OF assms] by (rule rd_in)
  ultimately show ?thesis by (simp add: can_place_queen_def diag_index_wrap[OF assms])
qed

lemma place_queen_wf:
  assumes "wf_board b" "0 \<le> x" "x < size_b b" "0 \<le> y" "y < size_b b"
  shows "place_queen b x y =
     Inr (b\<lparr>solution := (solution b)[nat y := x], col_is_free := (col_is_free b)[nat x := 0],
            diag45_is_free := (diag45_is_free b)[nat (y - x + shift_diag45 b) := 0],
            diag135_is_free := (diag135_is_free b)[nat (y + x) := 0]\<rparr>)"
proof -
  have "wr (solution b) y x = Inr ((solution b)[nat y := x])"
    using assms by (simp add: wr_in wf_board_def)
  moreover have "wr (col_is_free b) x 0 = Inr ((col_is_free b)[nat x := 0])"
    using assms by (simp add: wr_in wf_board_def)
  moreover have "wr (diag45_is_free b) (y - x + shift_diag45 b) 0 = Inr ((diag45_is_free b)[nat (y - x + shift_diag45 b) := 0])"
    using diag_index_bounds(1,2)[OF assms] by (rule wr_in)
  moreover have "wr (diag135_is_free b) (y + x) 0 = Inr ((diag135_is_free b)[nat (y + x) := 0])"
    using diag_index_bounds(3,4)[OF assms] by (rule wr_in)
  ultimately show ?thesis by (simp add: place_queen_def diag_index_wrap[OF assms])
qed

lemma remove_queen_wf:
  assumes "wf_board b" "0 \<le> x" "x < size_b b" "0 \<le> y" "y < size_b b"
  shows "remove_queen b x y =
     Inr (b\<lparr>solution := (solution b)[nat y := - 1], col_is_free := (col_is_free b)[nat x := 1],
            diag45_is_free := (diag45_is_free b)[nat (y - x + shift_diag45 b) := 1],
            diag135_is_free := (diag135_is_free b)[nat (y + x) := 1]\<rparr>)"
proof -
  have "wr (solution b) y (- 1) = Inr ((solution b)[nat y := - 1])"
    using assms by (simp add: wr_in wf_board_def)
  moreover have "wr (col_is_free b) x 1 = Inr ((col_is_free b)[nat x := 1])"
    using assms by (simp add: wr_in wf_board_def)
  moreover have "wr (diag45_is_free b) (y - x + shift_diag45 b) 1 = Inr ((diag45_is_free b)[nat (y - x + shift_diag45 b) := 1])"
    using diag_index_bounds(1,2)[OF assms] by (rule wr_in)
  moreover have "wr (diag135_is_free b) (y + x) 1 = Inr ((diag135_is_free b)[nat (y + x) := 1])"
    using diag_index_bounds(3,4)[OF assms] by (rule wr_in)
  ultimately show ?thesis by (simp add: remove_queen_def diag_index_wrap[OF assms])
qed

lemma place_queen_keeps_wf:
  assumes "wf_board b" "place_queen b x y = Inr b'"
  shows "wf_board b'" "size_b b' = size_b b"
  using assms by (auto simp: place_queen_def wf_board_def wr_eq_Inr split: sum.splits)

lemma remove_queen_keeps_wf:
  assumes "wf_board b" "remove_queen b x y = Inr b'"
  shows "wf_board b'" "size_b b' = size_b b"
  using assms by (auto simp: remove_queen_def wf_board_def wr_eq_Inr split: sum.splits)

lemma is_valid_wf: "wf_board b \<Longrightarrow> is_valid b = Inr (solution b ! nat (size_b b - 1) \<noteq> - 1)"
  by (simp add: is_valid_def rd_in wf_board_def)

text \<open>
  C10 (as amended): on a board of size \<open>n > 0\<close> whose diagonal length \<open>2n - 1\<close> is a C
  \<^verbatim>\<open>int\<close> (arrays of lengths \<open>n\<close>, \<open>n\<close>, \<open>2n - 1\<close>, \<open>2n - 1\<close> and shift \<open>n - 1\<close>) and
  coordinates \<open>0 \<le> x, y < n\<close>, the two diagonal indices as the program computes them,
  in \<^verbatim>\<open>int\<close> arithmetic, are \<open>y - x + (n - 1)\<close> and \<open>y + x\<close>, both lie in \<open>[0, 2n - 2]\<close>,
  and \<open>can_place_queen\<close>, \<open>place_queen\<close> and \<open>remove_queen\<close> return a value: none of
  their array accesses is out of range. The board returned by place and remove has the
  same shape.
\<close>

theorem board_ops_in_bounds:
  assumes "wf_board b" "0 \<le> x" "x < size_b b" "0 \<le> y" "y < size_b b"
  shows "2 * size_b b - 1 \<le> 2147483647
    \<and> wrap_int (wrap_int (y - x) + shift_diag45 b) = y - x + (size_b b - 1)
    \<and> wrap_int (y + x) = y + x
    \<and> 0 \<le> y - x + (size_b b - 1) \<and> y - x + (size_b b - 1) \<le> 2 * size_b b - 2
    \<and> 0 \<le> y + x \<and> y + x \<le> 2 * size_b b - 2
    \<and> shift_diag45 b = size_b b - 1
    \<and> (\<exists>r. can_place_queen b x y = Inr r)
    \<and> (\<exists>b'. place_queen b x y = Inr b' \<and> wf_board b')
    \<and> (\<exists>b'. remove_queen b x y = Inr b' \<and> wf_board b')"
proof -
  have "\<exists>r. can_place_queen b x y = Inr r"
    using can_place_queen_wf[OF assms] by simp
  moreover have "\<exists>b'. place_queen b x y = Inr b' \<and> wf_board b'"
    using place_queen_wf[OF assms] place_queen_keeps_wf(1)[OF assms(1)] by simp
  moreover have "\<exists>b'. remove_queen b x y = Inr b' \<and> wf_board b'"
    using remove_queen_wf[OF assms] remove_queen_keeps_wf(1)[OF assms(1)] by simp
  moreover have sh: "shift_diag45 b = size_b b - 1" and "2 * size_b b - 1 \<le> 2147483647"
    using assms(1) by (simp_all add: wf_board_def)
  moreover have "wrap_int (wrap_int (y - x) + shift_diag45 b) = y - x + (size_b b - 1)"
    using diag_index_wrap(1)[OF assms] sh by simp
  moreover note diag_index_wrap(2)[OF assms]
  ultimately show ?thesis using assms(2-5) by simp
qed

theorem board_ops_in_bounds_witness:
  "wf_board (empty_board 3) \<and> (0::int) \<le> 2 \<and> 2 < size_b (empty_board 3) \<and> (0::int) \<le> 1 \<and> 1 < size_b (empty_board 3)
    \<and> create_board 3 = Inr (empty_board 3)
    \<and> (\<exists>r. can_place_queen (empty_board 3) 2 1 = Inr r)
    \<and> (\<exists>b'. place_queen (empty_board 3) 2 1 = Inr b' \<and> wf_board b')
    \<and> (\<exists>b'. remove_queen (empty_board 3) 2 1 = Inr b' \<and> wf_board b')"
proof -
  have h: "wf_board (empty_board 3)" "(0::int) \<le> 2" "2 < size_b (empty_board 3)" "(0::int) \<le> 1" "1 < size_b (empty_board 3)"
    by (simp_all add: wf_board_def empty_board_def)
  show ?thesis
    using h board_ops_in_bounds[OF h] create_board_eq[of 3] by simp
qed

text \<open>
  C10 as stated, for every size \<open>n > 0\<close>, fails at \<open>n = 2^30 + 1\<close>: the \<^verbatim>\<open>int\<close>
  \<^verbatim>\<open>size * 2 - 1\<close> wraps to \<open>-2147483647\<close>, so \<open>create_board\<close> returns a board whose
  \<open>solution\<close> and \<open>col_is_free\<close> have \<open>n\<close> cells while the two diagonal arrays have none,
  and at the in-range square \<open>(0, 0)\<close> all three operations access a diagonal array out of
  bounds.
\<close>

theorem board_ops_out_of_bounds_large:
  "(case create_board 1073741825 of
      Inl e \<Rightarrow> False
    | Inr b \<Rightarrow>
        size_b b = 1073741825 \<and> int (length (solution b)) = 1073741825
        \<and> int (length (col_is_free b)) = 1073741825
        \<and> diag45_is_free b = [] \<and> diag135_is_free b = []
        \<and> can_place_queen b 0 0 = Inl OutOfBounds
        \<and> place_queen b 0 0 = Inl OutOfBounds
        \<and> remove_queen b 0 0 = Inl OutOfBounds)"
proof -
  let ?b = "created_board 1073741825"
  have w: "wrap_int (wrap_int 2147483650 - 1) = - 2147483647"
    by (simp add: wrap_int_def)
  have d: "diag45_is_free ?b = []" "diag135_is_free ?b = []"
    by (simp_all add: created_board_def w)
  have l: "int (length (solution ?b)) = 1073741825" "int (length (col_is_free ?b)) = 1073741825"
    "size_b ?b = 1073741825"
    by (simp_all add: created_board_def)
  have c: "col_is_free ?b ! nat 0 = 1" by (simp add: created_board_def)
  have rc: "rd (col_is_free ?b) 0 = Inr 1" using l(2) c by (simp add: rd_def)
  have cp: "can_place_queen ?b 0 0 = Inl OutOfBounds"
    using rc d by (simp add: can_place_queen_def rd_def)
  have ws: "\<exists>s. wr (solution ?b) 0 0 = Inr s" using l(1) by (simp add: wr_def)
  have wc: "\<And>v. \<exists>c. wr (col_is_free ?b) 0 v = Inr c" using l(2) by (simp add: wr_def)
  have pl: "place_queen ?b 0 0 = Inl OutOfBounds"
    using ws wc[of 0] d by (auto simp: place_queen_def wr_def split: sum.splits)
  have ws': "\<exists>s. wr (solution ?b) 0 (- 1) = Inr s" using l(1) by (simp add: wr_def)
  have rm: "remove_queen ?b 0 0 = Inl OutOfBounds"
    using ws' wc[of 1] d by (auto simp: remove_queen_def wr_def split: sum.splits)
  show ?thesis using l d cp pl rm by (simp add: create_board_created)
qed

text \<open>
  C4 (as amended): \<open>create_board\<close> has no check of its argument. For \<open>n \<le> 0\<close> the first
  initialisation loop does not run and the call returns a board that records the size
  \<open>n\<close> and whose \<open>solution\<close> and \<open>col_is_free\<close> have no cell; \<open>is_valid\<close> and \<open>backtrack\<close>
  on that board read \<open>solution[n - 1]\<close>, which is out of bounds. For \<open>-2^30 < n \<le> 0\<close> the
  diagonal arrays have no cell either; at \<open>n = -2^30\<close> the \<^verbatim>\<open>int\<close> \<^verbatim>\<open>size * 2 - 1\<close> wraps
  to \<open>2^31 - 1\<close> (\<open>create_board_wraps_positive\<close>).
\<close>

theorem create_board_nonpositive:
  "n \<le> 0 \<Longrightarrow>
   (\<exists>b. create_board n = Inr b \<and> size_b b = n \<and> solution b = [] \<and> col_is_free b = []
       \<and> is_valid b = Inl OutOfBounds \<and> backtrack b y = Inl OutOfBounds)
   \<and> (- 1073741824 < n \<longrightarrow>
        create_board n = Inr \<lparr>size_b = n, shift_diag45 = n - 1, solution = [], col_is_free = [],
                              diag45_is_free = [], diag135_is_free = []\<rparr>)"
proof -
  assume n: "n \<le> 0"
  let ?b = "created_board n"
  from n have e: "solution ?b = []" "col_is_free ?b = []" "size_b ?b = n"
    by (simp_all add: created_board_def)
  have v: "is_valid ?b = Inl OutOfBounds" using e by (simp add: is_valid_def rd_def)
  then have bt: "backtrack ?b y = Inl OutOfBounds" by (simp add: backtrack.simps)
  have "create_board n = Inr \<lparr>size_b = n, shift_diag45 = n - 1, solution = [], col_is_free = [],
                              diag45_is_free = [], diag135_is_free = []\<rparr>"
    if "- 1073741824 < n"
    using that n by (simp add: create_board_eq empty_board_def)
  with e v bt show ?thesis by (simp add: create_board_created)
qed

theorem create_board_nonpositive_witness:
  "(0::int) \<le> 0 \<and>
   (\<exists>b. create_board 0 = Inr b \<and> size_b b = 0 \<and> solution b = [] \<and> col_is_free b = []
       \<and> is_valid b = Inl OutOfBounds \<and> backtrack b 0 = Inl OutOfBounds)
   \<and> (- 1073741824 < (0::int)) \<and>
   create_board 0 = Inr \<lparr>size_b = 0, shift_diag45 = 0 - 1, solution = [], col_is_free = [],
                         diag45_is_free = [], diag135_is_free = []\<rparr>"
  using create_board_nonpositive[of 0 0] by auto

lemma create_board_wraps_positive:
  "\<exists>b. create_board (- 1073741824) = Inr b \<and> solution b = [] \<and> col_is_free b = []
     \<and> length (diag45_is_free b) = 2147483647 \<and> length (diag135_is_free b) = 2147483647"
proof -
  have "wrap_int (wrap_int (- 2147483648) - 1) = 2147483647" by (simp add: wrap_int_def)
  then show ?thesis by (simp add: create_board_created created_board_def)
qed

text \<open>
  C4 as stated does not hold: for size 0 and for size \<open>-1\<close> the call returns a board
  (it does not fail), the board has no cell in any array, and the first use of it,
  \<open>is_valid\<close>, reads out of bounds.
\<close>

theorem create_board_no_fail_fast:
  "create_board 0 = Inr \<lparr>size_b = 0, shift_diag45 = - 1, solution = [], col_is_free = [],
                         diag45_is_free = [], diag135_is_free = []\<rparr>
   \<and> is_valid \<lparr>size_b = 0, shift_diag45 = - 1, solution = [], col_is_free = [],
                 diag45_is_free = [], diag135_is_free = []\<rparr> = Inl OutOfBounds
   \<and> create_board (- 1) = Inr \<lparr>size_b = - 1, shift_diag45 = - 2, solution = [], col_is_free = [],
                         diag45_is_free = [], diag135_is_free = []\<rparr>
   \<and> is_valid \<lparr>size_b = - 1, shift_diag45 = - 2, solution = [], col_is_free = [],
                 diag45_is_free = [], diag135_is_free = []\<rparr> = Inl OutOfBounds"
  by (simp add: create_board_eq empty_board_def is_valid_def rd_def)

section \<open>The tracking arrays mirror the placed queens\<close>

lemma consistent_empty_board: "0 < n \<Longrightarrow> n \<le> 1073741824 \<Longrightarrow> consistent (empty_board n)"
  by (auto simp: consistent_def wf_board_def flags_ok_def entries_ok_def lockstep_def safe_def empty_board_def)

lemma place_queen_consistent:
  assumes c: "consistent b" and x: "0 \<le> x" "x < size_b b" and y: "0 \<le> y" "y < size_b b"
    and free: "solution b ! nat y = - 1" and ok: "can_place_queen b x y = Inr True"
    and pl: "place_queen b x y = Inr b'"
  shows "consistent b'"
proof -
  from c have wf: "wf_board b" and fl: "flags_ok b" and en: "entries_ok b"
    and ls: "lockstep b" and sf: "safe b"
    by (simp_all add: consistent_def)
  let ?n = "size_b b"
  let ?d = "y - x + (?n - 1)"
  have sh: "shift_diag45 b = ?n - 1" using wf by (simp add: wf_board_def)
  have len: "int (length (solution b)) = ?n" "int (length (col_is_free b)) = ?n"
    "int (length (diag45_is_free b)) = 2 * ?n - 1" "int (length (diag135_is_free b)) = 2 * ?n - 1"
    using wf by (simp_all add: wf_board_def)
  from ok can_place_queen_wf[OF wf x y] sh
  have fr: "col_is_free b ! nat x \<noteq> 0" "diag45_is_free b ! nat ?d \<noteq> 0"
    "diag135_is_free b ! nat (y + x) \<noteq> 0"
    by simp_all
  from pl place_queen_wf[OF wf x y] sh
  have b': "b' = b\<lparr>solution := (solution b)[nat y := x], col_is_free := (col_is_free b)[nat x := 0],
            diag45_is_free := (diag45_is_free b)[nat ?d := 0],
            diag135_is_free := (diag135_is_free b)[nat (y + x) := 0]\<rparr>"
    by simp
  have sol: "\<And>i. 0 \<le> i \<Longrightarrow> i < ?n \<Longrightarrow> solution b' ! nat i = (if i = y then x else solution b ! nat i)"
    using len y by (auto simp: b' nth_list_update)
  have col: "\<And>i. 0 \<le> i \<Longrightarrow> i < ?n \<Longrightarrow> col_is_free b' ! nat i = (if i = x then 0 else col_is_free b ! nat i)"
    using len x by (auto simp: b' nth_list_update)
  have d45: "\<And>i. 0 \<le> i \<Longrightarrow> i < 2 * ?n - 1 \<Longrightarrow> diag45_is_free b' ! nat i = (if i = ?d then 0 else diag45_is_free b ! nat i)"
    using len x y by (auto simp: b' nth_list_update)
  have d135: "\<And>i. 0 \<le> i \<Longrightarrow> i < 2 * ?n - 1 \<Longrightarrow> diag135_is_free b' ! nat i = (if i = y + x then 0 else diag135_is_free b ! nat i)"
    using len x y by (auto simp: b' nth_list_update)
  have n': "size_b b' = ?n" by (simp add: b')
  have wf': "wf_board b'" using place_queen_keeps_wf(1)[OF wf pl] .
  have fl': "flags_ok b'"
    using fl set_update_subset_insert[of "col_is_free b" "nat x" 0]
      set_update_subset_insert[of "diag45_is_free b" "nat ?d" 0]
      set_update_subset_insert[of "diag135_is_free b" "nat (y + x)" 0]
    by (auto simp: flags_ok_def b')
  have en': "entries_ok b'"
    using en x by (auto simp: entries_ok_def n' sol)
  have ls1: "\<forall>x'\<in>{0..<size_b b'}.
        (col_is_free b' ! nat x' = 0) = (\<exists>y'\<in>{0..<size_b b'}. solution b' ! nat y' = x')"
  proof
    fix x' assume x': "x' \<in> {0..<size_b b'}"
    with ls have old: "(col_is_free b ! nat x' = 0) = (\<exists>y'\<in>{0..<?n}. solution b ! nat y' = x')"
      by (simp add: lockstep_def n')
    show "(col_is_free b' ! nat x' = 0) = (\<exists>y'\<in>{0..<size_b b'}. solution b' ! nat y' = x')"
    proof (cases "x' = x")
      case True
      then show ?thesis using x y x' by (auto simp: n' sol col intro!: bexI[of _ y])
    next
      case False
      have "\<forall>y'\<in>{0..<?n}. (solution b' ! nat y' = x') = (solution b ! nat y' = x')"
        using False free x' by (auto simp: sol)
      then have "(\<exists>y'\<in>{0..<?n}. solution b' ! nat y' = x') = (\<exists>y'\<in>{0..<?n}. solution b ! nat y' = x')"
        by blast
      then show ?thesis using False x' old by (simp add: n' col)
    qed
  qed
  have ls2: "\<forall>d\<in>{0..<2 * size_b b' - 1}.
        (diag45_is_free b' ! nat d = 0) =
        (\<exists>y'\<in>{0..<size_b b'}. solution b' ! nat y' \<noteq> - 1
            \<and> y' - solution b' ! nat y' + (size_b b' - 1) = d)"
  proof
    fix d assume d: "d \<in> {0..<2 * size_b b' - 1}"
    with ls have old: "(diag45_is_free b ! nat d = 0) =
        (\<exists>y'\<in>{0..<?n}. solution b ! nat y' \<noteq> - 1 \<and> y' - solution b ! nat y' + (?n - 1) = d)"
      by (simp add: lockstep_def n')
    show "(diag45_is_free b' ! nat d = 0) =
        (\<exists>y'\<in>{0..<size_b b'}. solution b' ! nat y' \<noteq> - 1
            \<and> y' - solution b' ! nat y' + (size_b b' - 1) = d)"
    proof (cases "d = ?d")
      case True
      then show ?thesis using x y d by (auto simp: n' sol d45 intro!: bexI[of _ y])
    next
      case False
      have "\<forall>y'\<in>{0..<?n}. (solution b' ! nat y' \<noteq> - 1 \<and> y' - solution b' ! nat y' + (?n - 1) = d)
          = (solution b ! nat y' \<noteq> - 1 \<and> y' - solution b ! nat y' + (?n - 1) = d)"
        using False free d by (auto simp: sol)
      then have "(\<exists>y'\<in>{0..<?n}. solution b' ! nat y' \<noteq> - 1 \<and> y' - solution b' ! nat y' + (?n - 1) = d)
          = (\<exists>y'\<in>{0..<?n}. solution b ! nat y' \<noteq> - 1 \<and> y' - solution b ! nat y' + (?n - 1) = d)"
        by blast
      then show ?thesis using False d old by (simp add: n' d45)
    qed
  qed
  have ls3: "\<forall>d\<in>{0..<2 * size_b b' - 1}.
        (diag135_is_free b' ! nat d = 0) =
        (\<exists>y'\<in>{0..<size_b b'}. solution b' ! nat y' \<noteq> - 1 \<and> y' + solution b' ! nat y' = d)"
  proof
    fix d assume d: "d \<in> {0..<2 * size_b b' - 1}"
    with ls have old: "(diag135_is_free b ! nat d = 0) =
        (\<exists>y'\<in>{0..<?n}. solution b ! nat y' \<noteq> - 1 \<and> y' + solution b ! nat y' = d)"
      by (simp add: lockstep_def n')
    show "(diag135_is_free b' ! nat d = 0) =
        (\<exists>y'\<in>{0..<size_b b'}. solution b' ! nat y' \<noteq> - 1 \<and> y' + solution b' ! nat y' = d)"
    proof (cases "d = y + x")
      case True
      then show ?thesis using x y d by (auto simp: n' sol d135 intro!: bexI[of _ y])
    next
      case False
      have "\<forall>y'\<in>{0..<?n}. (solution b' ! nat y' \<noteq> - 1 \<and> y' + solution b' ! nat y' = d)
          = (solution b ! nat y' \<noteq> - 1 \<and> y' + solution b ! nat y' = d)"
        using False free d by (auto simp: sol)
      then have "(\<exists>y'\<in>{0..<?n}. solution b' ! nat y' \<noteq> - 1 \<and> y' + solution b' ! nat y' = d)
          = (\<exists>y'\<in>{0..<?n}. solution b ! nat y' \<noteq> - 1 \<and> y' + solution b ! nat y' = d)"
        by blast
      then show ?thesis using False d old by (simp add: n' d135)
    qed
  qed
  have ls': "lockstep b'" unfolding lockstep_def using ls1 ls2 ls3 by blast
  have new: "solution b ! nat y' \<noteq> x \<and> y' - solution b ! nat y' \<noteq> y - x
       \<and> y' + solution b ! nat y' \<noteq> y + x"
    if y': "0 \<le> y'" "y' < ?n" and pl': "solution b ! nat y' \<noteq> - 1" for y'
  proof -
    let ?x' = "solution b ! nat y'"
    from en y' pl' have xr: "0 \<le> ?x'" "?x' < ?n" by (auto simp: entries_ok_def)
    from ls xr y' pl' have "col_is_free b ! nat ?x' = 0"
      by (auto simp: lockstep_def)
    with fr(1) have 1: "?x' \<noteq> x" by auto
    from xr y' have "y' - ?x' + (?n - 1) \<in> {0..<2 * ?n - 1}" by auto
    with ls y' pl' have "diag45_is_free b ! nat (y' - ?x' + (?n - 1)) = 0"
      unfolding lockstep_def by auto
    with fr(2) have 2: "y' - ?x' \<noteq> y - x" by auto
    from xr y' have "y' + ?x' \<in> {0..<2 * ?n - 1}" by auto
    with ls y' pl' have "diag135_is_free b ! nat (y' + ?x') = 0"
      unfolding lockstep_def by auto
    with fr(3) have 3: "y' + ?x' \<noteq> y + x" by auto
    from 1 2 3 show ?thesis by simp
  qed
  have sf': "safe b'"
    unfolding safe_def n'
  proof (intro ballI impI)
    fix y1 y2 assume r: "y1 \<in> {0..<?n}" "y2 \<in> {0..<?n}"
      and p: "y1 \<noteq> y2 \<and> solution b' ! nat y1 \<noteq> - 1 \<and> solution b' ! nat y2 \<noteq> - 1"
    show "solution b' ! nat y1 \<noteq> solution b' ! nat y2
        \<and> y1 - solution b' ! nat y1 \<noteq> y2 - solution b' ! nat y2
        \<and> y1 + solution b' ! nat y1 \<noteq> y2 + solution b' ! nat y2"
    proof (cases "y1 = y")
      case True
      with r p new[of y2] show ?thesis by (auto simp: sol)
    next
      case False
      show ?thesis
      proof (cases "y2 = y")
        case True
        with r p new[of y1] show ?thesis by (auto simp: sol)
      next
        case F2: False
        with False r p sf show ?thesis by (auto simp: sol safe_def)
      qed
    qed
  qed
  show ?thesis using wf' fl' en' ls' sf' by (simp add: consistent_def)
qed

lemma safeD:
  assumes "safe b" "y \<in> {0..<size_b b}" "y' \<in> {0..<size_b b}" "y \<noteq> y'"
    "solution b ! nat y \<noteq> - 1" "solution b ! nat y' \<noteq> - 1"
  shows "solution b ! nat y \<noteq> solution b ! nat y'
        \<and> y - solution b ! nat y \<noteq> y' - solution b ! nat y'
        \<and> y + solution b ! nat y \<noteq> y' + solution b ! nat y'"
  using assms unfolding safe_def by blast

lemma remove_queen_consistent:
  assumes c: "consistent b" and x: "0 \<le> x" "x < size_b b" and y: "0 \<le> y" "y < size_b b"
    and at: "solution b ! nat y = x"
    and rm: "remove_queen b x y = Inr b'"
  shows "consistent b'"
proof -
  from c have wf: "wf_board b" and fl: "flags_ok b" and en: "entries_ok b"
    and ls: "lockstep b" and sf: "safe b"
    by (simp_all add: consistent_def)
  let ?n = "size_b b"
  let ?d = "y - x + (?n - 1)"
  have sh: "shift_diag45 b = ?n - 1" using wf by (simp add: wf_board_def)
  have len: "int (length (solution b)) = ?n" "int (length (col_is_free b)) = ?n"
    "int (length (diag45_is_free b)) = 2 * ?n - 1" "int (length (diag135_is_free b)) = 2 * ?n - 1"
    using wf by (simp_all add: wf_board_def)
  from rm remove_queen_wf[OF wf x y] sh
  have b': "b' = b\<lparr>solution := (solution b)[nat y := - 1], col_is_free := (col_is_free b)[nat x := 1],
            diag45_is_free := (diag45_is_free b)[nat ?d := 1],
            diag135_is_free := (diag135_is_free b)[nat (y + x) := 1]\<rparr>"
    by simp
  have sol: "\<And>i. 0 \<le> i \<Longrightarrow> i < ?n \<Longrightarrow> solution b' ! nat i = (if i = y then - 1 else solution b ! nat i)"
    using len y by (auto simp: b' nth_list_update)
  have col: "\<And>i. 0 \<le> i \<Longrightarrow> i < ?n \<Longrightarrow> col_is_free b' ! nat i = (if i = x then 1 else col_is_free b ! nat i)"
    using len x by (auto simp: b' nth_list_update)
  have d45: "\<And>i. 0 \<le> i \<Longrightarrow> i < 2 * ?n - 1 \<Longrightarrow> diag45_is_free b' ! nat i = (if i = ?d then 1 else diag45_is_free b ! nat i)"
    using len x y by (auto simp: b' nth_list_update)
  have d135: "\<And>i. 0 \<le> i \<Longrightarrow> i < 2 * ?n - 1 \<Longrightarrow> diag135_is_free b' ! nat i = (if i = y + x then 1 else diag135_is_free b ! nat i)"
    using len x y by (auto simp: b' nth_list_update)
  have n': "size_b b' = ?n" by (simp add: b')
  have wf': "wf_board b'" using remove_queen_keeps_wf(1)[OF wf rm] .
  have fl': "flags_ok b'"
    using fl set_update_subset_insert[of "col_is_free b" "nat x" 1]
      set_update_subset_insert[of "diag45_is_free b" "nat ?d" 1]
      set_update_subset_insert[of "diag135_is_free b" "nat (y + x)" 1]
    by (auto simp: flags_ok_def b')
  have en': "entries_ok b'"
    using en by (auto simp: entries_ok_def n' sol)
  have other: "solution b ! nat y' \<noteq> x \<and> y' - solution b ! nat y' \<noteq> y - x
       \<and> y' + solution b ! nat y' \<noteq> y + x"
    if y': "0 \<le> y'" "y' < ?n" "y' \<noteq> y" and pl': "solution b ! nat y' \<noteq> - 1" for y'
    using safeD[OF sf, of y' y] y y' pl' at x by auto
  have ls1: "\<forall>x'\<in>{0..<size_b b'}.
        (col_is_free b' ! nat x' = 0) = (\<exists>y'\<in>{0..<size_b b'}. solution b' ! nat y' = x')"
  proof
    fix x' assume x': "x' \<in> {0..<size_b b'}"
    with ls have old: "(col_is_free b ! nat x' = 0) = (\<exists>y'\<in>{0..<?n}. solution b ! nat y' = x')"
      by (simp add: lockstep_def n')
    show "(col_is_free b' ! nat x' = 0) = (\<exists>y'\<in>{0..<size_b b'}. solution b' ! nat y' = x')"
    proof (cases "x' = x")
      case True
      have "\<forall>y'\<in>{0..<?n}. solution b' ! nat y' \<noteq> x"
      proof
        fix y' assume "y' \<in> {0..<?n}"
        then show "solution b' ! nat y' \<noteq> x"
          using other[of y'] x by (cases "y' = y") (auto simp: sol)
      qed
      then show ?thesis using True x by (simp add: n' col)
    next
      case False
      have "\<forall>y'\<in>{0..<?n}. (solution b' ! nat y' = x') = (solution b ! nat y' = x')"
        using False at x' by (auto simp: sol)
      then have "(\<exists>y'\<in>{0..<?n}. solution b' ! nat y' = x') = (\<exists>y'\<in>{0..<?n}. solution b ! nat y' = x')"
        by blast
      then show ?thesis using False x' old by (simp add: n' col)
    qed
  qed
  have ls2: "\<forall>d\<in>{0..<2 * size_b b' - 1}.
        (diag45_is_free b' ! nat d = 0) =
        (\<exists>y'\<in>{0..<size_b b'}. solution b' ! nat y' \<noteq> - 1
            \<and> y' - solution b' ! nat y' + (size_b b' - 1) = d)"
  proof
    fix d assume d: "d \<in> {0..<2 * size_b b' - 1}"
    with ls have old: "(diag45_is_free b ! nat d = 0) =
        (\<exists>y'\<in>{0..<?n}. solution b ! nat y' \<noteq> - 1 \<and> y' - solution b ! nat y' + (?n - 1) = d)"
      by (simp add: lockstep_def n')
    show "(diag45_is_free b' ! nat d = 0) =
        (\<exists>y'\<in>{0..<size_b b'}. solution b' ! nat y' \<noteq> - 1
            \<and> y' - solution b' ! nat y' + (size_b b' - 1) = d)"
    proof (cases "d = ?d")
      case True
      have "\<forall>y'\<in>{0..<?n}. \<not> (solution b' ! nat y' \<noteq> - 1 \<and> y' - solution b' ! nat y' + (?n - 1) = ?d)"
      proof
        fix y' assume "y' \<in> {0..<?n}"
        then show "\<not> (solution b' ! nat y' \<noteq> - 1 \<and> y' - solution b' ! nat y' + (?n - 1) = ?d)"
          using other[of y'] by (cases "y' = y") (auto simp: sol)
      qed
      then show ?thesis using True d by (simp add: n' d45)
    next
      case False
      have "\<forall>y'\<in>{0..<?n}. (solution b' ! nat y' \<noteq> - 1 \<and> y' - solution b' ! nat y' + (?n - 1) = d)
          = (solution b ! nat y' \<noteq> - 1 \<and> y' - solution b ! nat y' + (?n - 1) = d)"
        using False at d by (auto simp: sol)
      then have "(\<exists>y'\<in>{0..<?n}. solution b' ! nat y' \<noteq> - 1 \<and> y' - solution b' ! nat y' + (?n - 1) = d)
          = (\<exists>y'\<in>{0..<?n}. solution b ! nat y' \<noteq> - 1 \<and> y' - solution b ! nat y' + (?n - 1) = d)"
        by blast
      then show ?thesis using False d old by (simp add: n' d45)
    qed
  qed
  have ls3: "\<forall>d\<in>{0..<2 * size_b b' - 1}.
        (diag135_is_free b' ! nat d = 0) =
        (\<exists>y'\<in>{0..<size_b b'}. solution b' ! nat y' \<noteq> - 1 \<and> y' + solution b' ! nat y' = d)"
  proof
    fix d assume d: "d \<in> {0..<2 * size_b b' - 1}"
    with ls have old: "(diag135_is_free b ! nat d = 0) =
        (\<exists>y'\<in>{0..<?n}. solution b ! nat y' \<noteq> - 1 \<and> y' + solution b ! nat y' = d)"
      by (simp add: lockstep_def n')
    show "(diag135_is_free b' ! nat d = 0) =
        (\<exists>y'\<in>{0..<size_b b'}. solution b' ! nat y' \<noteq> - 1 \<and> y' + solution b' ! nat y' = d)"
    proof (cases "d = y + x")
      case True
      have "\<forall>y'\<in>{0..<?n}. \<not> (solution b' ! nat y' \<noteq> - 1 \<and> y' + solution b' ! nat y' = y + x)"
      proof
        fix y' assume "y' \<in> {0..<?n}"
        then show "\<not> (solution b' ! nat y' \<noteq> - 1 \<and> y' + solution b' ! nat y' = y + x)"
          using other[of y'] by (cases "y' = y") (auto simp: sol)
      qed
      then show ?thesis using True d by (simp add: n' d135)
    next
      case False
      have "\<forall>y'\<in>{0..<?n}. (solution b' ! nat y' \<noteq> - 1 \<and> y' + solution b' ! nat y' = d)
          = (solution b ! nat y' \<noteq> - 1 \<and> y' + solution b ! nat y' = d)"
        using False at d by (auto simp: sol)
      then have "(\<exists>y'\<in>{0..<?n}. solution b' ! nat y' \<noteq> - 1 \<and> y' + solution b' ! nat y' = d)
          = (\<exists>y'\<in>{0..<?n}. solution b ! nat y' \<noteq> - 1 \<and> y' + solution b ! nat y' = d)"
        by blast
      then show ?thesis using False d old by (simp add: n' d135)
    qed
  qed
  have ls': "lockstep b'" unfolding lockstep_def using ls1 ls2 ls3 by blast
  have sf': "safe b'"
    unfolding safe_def n'
  proof (intro ballI impI)
    fix y1 y2 assume r: "y1 \<in> {0..<?n}" "y2 \<in> {0..<?n}"
      and p: "y1 \<noteq> y2 \<and> solution b' ! nat y1 \<noteq> - 1 \<and> solution b' ! nat y2 \<noteq> - 1"
    from r p have "y1 \<noteq> y" "y2 \<noteq> y" by (auto simp: sol split: if_splits)
    with r p sf show "solution b' ! nat y1 \<noteq> solution b' ! nat y2
        \<and> y1 - solution b' ! nat y1 \<noteq> y2 - solution b' ! nat y2
        \<and> y1 + solution b' ! nat y1 \<noteq> y2 + solution b' ! nat y2"
      by (auto simp: sol safe_def)
  qed
  show ?thesis using wf' fl' en' ls' sf' by (simp add: consistent_def)
qed

lemma remove_after_place:
  assumes c: "consistent b" and x: "0 \<le> x" "x < size_b b" and y: "0 \<le> y" "y < size_b b"
    and free: "solution b ! nat y = - 1" and ok: "can_place_queen b x y = Inr True"
    and pl: "place_queen b x y = Inr b1"
  shows "remove_queen b1 x y = Inr b"
proof -
  from c have wf: "wf_board b" and fl: "flags_ok b" by (simp_all add: consistent_def)
  let ?n = "size_b b"
  have sh: "shift_diag45 b = ?n - 1" using wf by (simp add: wf_board_def)
  have len: "int (length (solution b)) = ?n" "int (length (col_is_free b)) = ?n"
    "int (length (diag45_is_free b)) = 2 * ?n - 1" "int (length (diag135_is_free b)) = 2 * ?n - 1"
    using wf by (simp_all add: wf_board_def)
  note ib = diag_index_bounds[OF wf x y]
  from ok can_place_queen_wf[OF wf x y]
  have fr: "col_is_free b ! nat x \<noteq> 0" "diag45_is_free b ! nat (y - x + shift_diag45 b) \<noteq> 0"
    "diag135_is_free b ! nat (y + x) \<noteq> 0"
    by simp_all
  have one: "col_is_free b ! nat x = 1" "diag45_is_free b ! nat (y - x + shift_diag45 b) = 1"
    "diag135_is_free b ! nat (y + x) = 1"
  proof -
    have "col_is_free b ! nat x \<in> set (col_is_free b)" using x len by (intro nth_mem) auto
    with fl fr(1) show "col_is_free b ! nat x = 1" by (auto simp: flags_ok_def)
    have "diag45_is_free b ! nat (y - x + shift_diag45 b) \<in> set (diag45_is_free b)"
      using ib len by (intro nth_mem) auto
    with fl fr(2) show "diag45_is_free b ! nat (y - x + shift_diag45 b) = 1" by (auto simp: flags_ok_def)
    have "diag135_is_free b ! nat (y + x) \<in> set (diag135_is_free b)"
      using ib len by (intro nth_mem) auto
    with fl fr(3) show "diag135_is_free b ! nat (y + x) = 1" by (auto simp: flags_ok_def)
  qed
  from pl place_queen_wf[OF wf x y]
  have b1: "b1 = b\<lparr>solution := (solution b)[nat y := x], col_is_free := (col_is_free b)[nat x := 0],
            diag45_is_free := (diag45_is_free b)[nat (y - x + shift_diag45 b) := 0],
            diag135_is_free := (diag135_is_free b)[nat (y + x) := 0]\<rparr>"
    by simp
  have wf1: "wf_board b1" and n1: "size_b b1 = ?n" using place_queen_keeps_wf[OF wf pl] by simp_all
  have "remove_queen b1 x y = Inr (b\<lparr>solution := (solution b)[nat y := - 1], col_is_free := (col_is_free b)[nat x := 1],
            diag45_is_free := (diag45_is_free b)[nat (y - x + shift_diag45 b) := 1],
            diag135_is_free := (diag135_is_free b)[nat (y + x) := 1]\<rparr>)"
    using remove_queen_wf[OF wf1, of x y] x y n1 by (simp add: b1)
  also have "(solution b)[nat y := - 1] = solution b"
    using free by (metis list_update_id)
  also have "(col_is_free b)[nat x := 1] = col_is_free b"
    using one(1) by (metis list_update_id)
  also have "(diag45_is_free b)[nat (y - x + shift_diag45 b) := 1] = diag45_is_free b"
    using one(2) by (metis list_update_id)
  also have "(diag135_is_free b)[nat (y + x) := 1] = diag135_is_free b"
    using one(3) by (metis list_update_id)
  finally show ?thesis by simp
qed

lemma ops_reach_consistent:
  assumes small: "2 * n - 1 \<le> 2147483647"
  shows "ops_reach n b \<Longrightarrow> consistent b \<and> size_b b = n"
proof (induct rule: ops_reach.induct)
  case (fresh b)
  from small have n: "n \<le> 1073741824" by simp
  with fresh have "b = empty_board n" by (simp add: create_board_eq)
  with fresh(1) n show ?case
    by (simp add: consistent_empty_board) (simp add: empty_board_def)
next
  case (place b x y b')
  then have c: "consistent b" and n: "size_b b = n" by simp_all
  from c have wf: "wf_board b" by (simp add: consistent_def)
  from place(7) have "solution b ! nat y = - 1" by (simp add: rd_eq_Inr)
  with place n c have "consistent b'"
    by (intro place_queen_consistent[of b x y b']) simp_all
  with place_queen_keeps_wf(2)[OF wf place(9)] n show ?case by simp
next
  case (remove b x y b')
  then have c: "consistent b" and n: "size_b b = n" by simp_all
  from c have wf: "wf_board b" by (simp add: consistent_def)
  from remove(7) have "solution b ! nat y = x" by (simp add: rd_eq_Inr)
  with remove n c have "consistent b'"
    by (intro remove_queen_consistent[of b x y b']) simp_all
  with remove_queen_keeps_wf(2)[OF wf remove(8)] n show ?case by simp
qed

text \<open>
  C3 (as amended): for a size \<open>n\<close> whose diagonal length \<open>2n - 1\<close> is a C \<^verbatim>\<open>int\<close>, on
  every board reached from a freshly created board of size \<open>n\<close> by
  placing a queen at an in-range square \<open>(x, y)\<close> whose row \<open>y\<close> is unplaced and for
  which \<open>can_place_queen\<close> holds, and by removing a queen that stands on the board, the
  tracking arrays mirror \<open>solution\<close>: \<open>col_is_free[x] = 0\<close> iff some row holds column \<open>x\<close>,
  \<open>diag45_is_free[d] = 0\<close> iff some placed queen \<open>(x, y)\<close> has \<open>y - x + (n - 1) = d\<close>, and
  \<open>diag135_is_free[d] = 0\<close> iff some placed queen has \<open>y + x = d\<close>.
\<close>

theorem tracking_arrays_lockstep:
  "ops_reach n b \<Longrightarrow> 2 * n - 1 \<le> 2147483647 \<Longrightarrow> size_b b = n \<and> wf_board b \<and> lockstep b"
proof -
  assume r: "ops_reach n b" and small: "2 * n - 1 \<le> 2147483647"
  from ops_reach_consistent[OF small r] show ?thesis by (simp add: consistent_def)
qed

theorem tracking_arrays_lockstep_witness:
  "ops_reach 4 \<lparr>size_b = 4, shift_diag45 = 3, solution = [- 1, - 1, 1, - 1],
       col_is_free = [1, 0, 1, 1], diag45_is_free = [1, 1, 1, 1, 0, 1, 1],
       diag135_is_free = [1, 1, 1, 0, 1, 1, 1]\<rparr>
   \<and> lockstep \<lparr>size_b = 4, shift_diag45 = 3, solution = [- 1, - 1, 1, - 1],
       col_is_free = [1, 0, 1, 1], diag45_is_free = [1, 1, 1, 1, 0, 1, 1],
       diag135_is_free = [1, 1, 1, 0, 1, 1, 1]\<rparr>"
proof -
  let ?b0 = "empty_board 4"
  let ?b1 = "\<lparr>size_b = 4, shift_diag45 = 3, solution = [- 1, - 1, 1, - 1],
       col_is_free = [1, 0, 1, 1], diag45_is_free = [1, 1, 1, 1, 0, 1, 1],
       diag135_is_free = [1, 1, 1, 0, 1, 1, 1]\<rparr>"
  have 0: "ops_reach 4 ?b0" by (rule ops_reach.fresh) (simp_all add: create_board_eq)
  have 1: "rd (solution ?b0) 2 = Inr (- 1)" by code_simp
  have 2: "can_place_queen ?b0 1 2 = Inr True" by code_simp
  have 3: "place_queen ?b0 1 2 = Inr ?b1" by code_simp
  have r: "ops_reach 4 ?b1" by (rule ops_reach.place[OF 0 _ _ _ _ 1 2 3]) simp_all
  from r tracking_arrays_lockstep[OF r] show ?thesis by simp
qed

text \<open>
  C3 as stated does not hold: \<open>can_place_queen\<close> does not look at the row, so its
  truth alone allows a second queen in a row that already has one. On the fresh board of
  size 4, placing at \<open>(0, 0)\<close> and then at \<open>(2, 0)\<close> meets the stated precondition both
  times; afterwards column 0 is marked occupied although no row holds column 0. And at
  the size \<open>2^30 + 1\<close>, where \<^verbatim>\<open>size * 2 - 1\<close> does not fit an \<^verbatim>\<open>int\<close>, the fresh board
  has no diagonal cell that could mark an index \<open>d\<close>.
\<close>

theorem lockstep_needs_unplaced_row:
  "create_board 4 = Inr (empty_board 4)
   \<and> can_place_queen (empty_board 4) 0 0 = Inr True
   \<and> place_queen (empty_board 4) 0 0 =
       Inr \<lparr>size_b = 4, shift_diag45 = 3, solution = [0, - 1, - 1, - 1],
            col_is_free = [0, 1, 1, 1], diag45_is_free = [1, 1, 1, 0, 1, 1, 1],
            diag135_is_free = [0, 1, 1, 1, 1, 1, 1]\<rparr>
   \<and> can_place_queen \<lparr>size_b = 4, shift_diag45 = 3, solution = [0, - 1, - 1, - 1],
            col_is_free = [0, 1, 1, 1], diag45_is_free = [1, 1, 1, 0, 1, 1, 1],
            diag135_is_free = [0, 1, 1, 1, 1, 1, 1]\<rparr> 2 0 = Inr True
   \<and> place_queen \<lparr>size_b = 4, shift_diag45 = 3, solution = [0, - 1, - 1, - 1],
            col_is_free = [0, 1, 1, 1], diag45_is_free = [1, 1, 1, 0, 1, 1, 1],
            diag135_is_free = [0, 1, 1, 1, 1, 1, 1]\<rparr> 2 0 =
       Inr \<lparr>size_b = 4, shift_diag45 = 3, solution = [2, - 1, - 1, - 1],
            col_is_free = [0, 1, 0, 1], diag45_is_free = [1, 0, 1, 0, 1, 1, 1],
            diag135_is_free = [0, 1, 0, 1, 1, 1, 1]\<rparr>
   \<and> \<not> lockstep \<lparr>size_b = 4, shift_diag45 = 3, solution = [2, - 1, - 1, - 1],
            col_is_free = [0, 1, 0, 1], diag45_is_free = [1, 0, 1, 0, 1, 1, 1],
            diag135_is_free = [0, 1, 0, 1, 1, 1, 1]\<rparr>
   \<and> (case create_board 1073741825 of
         Inl e \<Rightarrow> False
       | Inr b \<Rightarrow> size_b b = 1073741825 \<and> diag45_is_free b = [] \<and> diag135_is_free b = [])"
proof -
  have big: "(case create_board 1073741825 of
         Inl e \<Rightarrow> False
       | Inr b \<Rightarrow> size_b b = 1073741825 \<and> diag45_is_free b = [] \<and> diag135_is_free b = [])"
  proof -
    have "wrap_int (wrap_int 2147483650 - 1) = - 2147483647" by (simp add: wrap_int_def)
    then show ?thesis by (simp add: create_board_created created_board_def)
  qed
  have "create_board 4 = Inr (empty_board 4)" by (rule create_board_eq) simp_all
  moreover have "can_place_queen (empty_board 4) 0 0 = Inr True" by code_simp
  moreover have "place_queen (empty_board 4) 0 0 =
       Inr \<lparr>size_b = 4, shift_diag45 = 3, solution = [0, - 1, - 1, - 1],
            col_is_free = [0, 1, 1, 1], diag45_is_free = [1, 1, 1, 0, 1, 1, 1],
            diag135_is_free = [0, 1, 1, 1, 1, 1, 1]\<rparr>" by code_simp
  moreover have "can_place_queen \<lparr>size_b = 4, shift_diag45 = 3, solution = [0, - 1, - 1, - 1],
            col_is_free = [0, 1, 1, 1], diag45_is_free = [1, 1, 1, 0, 1, 1, 1],
            diag135_is_free = [0, 1, 1, 1, 1, 1, 1]\<rparr> 2 0 = Inr True" by code_simp
  moreover have "place_queen \<lparr>size_b = 4, shift_diag45 = 3, solution = [0, - 1, - 1, - 1],
            col_is_free = [0, 1, 1, 1], diag45_is_free = [1, 1, 1, 0, 1, 1, 1],
            diag135_is_free = [0, 1, 1, 1, 1, 1, 1]\<rparr> 2 0 =
       Inr \<lparr>size_b = 4, shift_diag45 = 3, solution = [2, - 1, - 1, - 1],
            col_is_free = [0, 1, 0, 1], diag45_is_free = [1, 0, 1, 0, 1, 1, 1],
            diag135_is_free = [0, 1, 0, 1, 1, 1, 1]\<rparr>" by code_simp
  moreover have "\<not> lockstep \<lparr>size_b = 4, shift_diag45 = 3, solution = [2, - 1, - 1, - 1],
            col_is_free = [0, 1, 0, 1], diag45_is_free = [1, 0, 1, 0, 1, 1, 1],
            diag135_is_free = [0, 1, 0, 1, 1, 1, 1]\<rparr>" by code_simp
  ultimately show ?thesis using big by blast
qed

section \<open>Reading the solution\<close>

lemma print_loop_wf:
  "int (length (solution b)) = size_b b \<longrightarrow> 0 \<le> i \<longrightarrow> i \<le> size_b b - 1 \<longrightarrow>
     print_loop b i printed =
       Inr (printed @ drop (nat i) (take (nat (size_b b - 1)) (solution b)))"
proof (induct b i printed rule: print_loop.induct)
  case (1 b i printed)
  show ?case
  proof (intro impI)
    assume len: "int (length (solution b)) = size_b b" and i: "0 \<le> i" "i \<le> size_b b - 1"
    let ?t = "take (nat (size_b b - 1)) (solution b)"
    show "print_loop b i printed = Inr (printed @ drop (nat i) ?t)"
    proof (cases "i < size_b b - 1")
      case False
      with i len have "drop (nat i) ?t = []" by simp
      with False show ?thesis by (simp add: print_loop.simps[of b i])
    next
      case True
      with i len have r: "rd (solution b) i = Inr (solution b ! nat i)" by (simp add: rd_in)
      from "1"[OF True r] len i True
      have "print_loop b (i + 1) (printed @ [solution b ! nat i])
          = Inr ((printed @ [solution b ! nat i]) @ drop (nat (i + 1)) ?t)"
        by simp
      moreover have "nat i < length ?t" using True i len by simp
      then have "drop (nat i) ?t = ?t ! nat i # drop (Suc (nat i)) ?t"
        by (rule Cons_nth_drop_Suc[symmetric])
      moreover have "?t ! nat i = solution b ! nat i" using True i by simp
      moreover have "nat (i + 1) = Suc (nat i)" using i by simp
      ultimately show ?thesis using True r by (simp add: print_loop.simps[of b i])
    qed
  qed
qed

lemma print_board_wf:
  assumes "wf_board b"
  shows "print_board b = Inr (solution b)"
proof -
  let ?n = "size_b b"
  from assms have n: "0 < ?n" and len: "int (length (solution b)) = ?n"
    by (simp_all add: wf_board_def)
  from print_loop_wf[of b 0 "[]"] n len
  have "print_loop b 0 [] = Inr (take (nat (?n - 1)) (solution b))" by simp
  moreover from n len have "rd (solution b) (?n - 1) = Inr (solution b ! nat (?n - 1))"
    by (simp add: rd_in)
  moreover have "take (nat (?n - 1)) (solution b) @ [solution b ! nat (?n - 1)] = solution b"
  proof -
    from n len have l: "nat (?n - 1) < length (solution b)" by simp
    from take_Suc_conv_app_nth[OF l]
    have "take (nat (?n - 1)) (solution b) @ [solution b ! nat (?n - 1)]
        = take (Suc (nat (?n - 1))) (solution b)"
      by simp
    also from n len have "Suc (nat (?n - 1)) = length (solution b)" by simp
    finally show ?thesis by simp
  qed
  ultimately show ?thesis by (simp add: print_board_def)
qed

section \<open>Boards reached by the search procedures\<close>

lemma row_order_empty_board: "0 < n \<Longrightarrow> row_order (empty_board n) 0"
  by (simp add: row_order_def empty_board_def)

lemma place_queen_solution:
  assumes "wf_board b" "place_queen b x y = Inr b'" "0 \<le> i" "i < size_b b"
  shows "solution b' ! nat i = (if i = y then x else solution b ! nat i)"
  using assms
  by (auto simp: place_queen_def wf_board_def wr_eq_Inr nth_list_update split: sum.splits)

lemma remove_queen_solution:
  assumes "wf_board b" "remove_queen b x y = Inr b'" "0 \<le> i" "i < size_b b"
  shows "solution b' ! nat i = (if i = y then - 1 else solution b ! nat i)"
  using assms
  by (auto simp: remove_queen_def wf_board_def wr_eq_Inr nth_list_update split: sum.splits)

lemma place_queen_row_order:
  assumes wf: "wf_board b" and ro: "row_order b y" and x: "0 \<le> x"
    and pl: "place_queen b x y = Inr b'"
  shows "row_order b' (y + 1)" and "y < size_b b" and "solution b ! nat y = - 1"
proof -
  from place_queen_shape[OF pl] wf show y: "y < size_b b" by (simp add: wf_board_def)
  with ro show "solution b ! nat y = - 1" by (simp add: row_order_def)
  have n': "size_b b' = size_b b" using place_queen_keeps_wf(2)[OF wf pl] .
  show "row_order b' (y + 1)"
    using ro y x unfolding row_order_def n'
    by (auto simp: place_queen_solution[OF wf pl])
qed

lemma remove_queen_row_order:
  assumes wf: "wf_board b" and ro: "row_order b (y + 1)" and rm: "remove_queen b x y = Inr b'"
  shows "row_order b' y"
proof -
  have n': "size_b b' = size_b b" using remove_queen_keeps_wf(2)[OF wf rm] .
  from rm have "0 \<le> y" by (auto simp: remove_queen_def wr_eq_Inr split: sum.splits)
  then show ?thesis
    using ro unfolding row_order_def n'
    by (auto simp: remove_queen_solution[OF wf rm])
qed

lemma search_reach_pos: "search_reach n b y \<Longrightarrow> 0 < n"
  by (induct rule: search_reach.induct)

lemma search_reach_inv:
  assumes sr: "search_reach n b y" and small: "2 * n - 1 \<le> 2147483647"
  shows "consistent b \<and> size_b b = n \<and> row_order b y"
  using sr
proof (induct rule: search_reach.induct)
  case (start b)
  from small have n: "n \<le> 1073741824" by simp
  with start have "b = empty_board n" by (simp add: create_board_eq)
  with start(1) n show ?case
    by (simp add: consistent_empty_board row_order_empty_board) (simp add: empty_board_def)
next
  case (place b y x b')
  then have c: "consistent b" and n: "size_b b = n" and ro: "row_order b y" by simp_all
  from c have wf: "wf_board b" by (simp add: consistent_def)
  note r = place_queen_row_order[OF wf ro place(3) place(6)]
  from ro have "0 \<le> y" by (simp add: row_order_def)
  with place c r have "consistent b'"
    by (intro place_queen_consistent[of b x y b']) simp_all
  with place_queen_keeps_wf(2)[OF wf place(6)] n r(1) show ?case by simp
next
  case (remove b y x b')
  then have c: "consistent b" and n: "size_b b = n" and ro: "row_order b (y + 1)" by simp_all
  from c have wf: "wf_board b" and en: "entries_ok b" by (simp_all add: consistent_def)
  from remove(3) wf have y: "0 \<le> y" "y < size_b b" and at: "solution b ! nat y = x"
    by (simp_all add: rd_eq_Inr wf_board_def)
  from ro y at have "x \<noteq> - 1" by (auto simp: row_order_def)
  with en y at have x: "0 \<le> x" "x < size_b b" by (auto simp: entries_ok_def)
  have "consistent b'"
    using c x y at remove(4) by (rule remove_queen_consistent)
  with remove_queen_keeps_wf(2)[OF wf remove(4)] n remove_queen_row_order[OF wf ro remove(4)]
  show ?case by simp
qed

lemma complete_rows_solution:
  assumes c: "consistent b" and ro: "row_order b (size_b b)"
  shows "is_solution (size_b b) (solution b)"
proof -
  let ?n = "size_b b"
  from c have wf: "wf_board b" and en: "entries_ok b" and sf: "safe b"
    by (simp_all add: consistent_def)
  have len: "int (length (solution b)) = ?n" using wf by (simp add: wf_board_def)
  have pl: "solution b ! i \<noteq> - 1" if "i < length (solution b)" for i
  proof -
    from that len have "int i \<in> {0..<?n}" by auto
    with ro have "solution b ! nat (int i) \<noteq> - 1" unfolding row_order_def by blast
    then show ?thesis by simp
  qed
  have rng: "0 \<le> solution b ! i \<and> solution b ! i < ?n" if "i < length (solution b)" for i
  proof -
    from that len have "int i \<in> {0..<?n}" by auto
    with en have "solution b ! nat (int i) = - 1 \<or> (0 \<le> solution b ! nat (int i) \<and> solution b ! nat (int i) < ?n)"
      unfolding entries_ok_def by blast
    with pl[OF that] show ?thesis by simp
  qed
  have "\<forall>x\<in>set (solution b). 0 \<le> x \<and> x < ?n"
    using rng by (auto simp: in_set_conv_nth)
  moreover have "no_conflict (solution b)"
    unfolding no_conflict_def
  proof (intro ballI)
    fix j i assume j: "j \<in> {0..<length (solution b)}" and i: "i \<in> {0..<j}"
    then have "int i \<in> {0..<?n}" "int j \<in> {0..<?n}" "int i \<noteq> int j" using len by auto
    from safeD[OF sf this] pl[of i] pl[of j] i j
    show "solution b ! i \<noteq> solution b ! j \<and> int i - solution b ! i \<noteq> int j - solution b ! j
        \<and> int i + solution b ! i \<noteq> int j + solution b ! j"
      by simp
  qed
  ultimately show ?thesis using len by (simp add: is_solution_def)
qed

lemma place_queen_eq_Inr:
  "place_queen b x y = Inr b' \<longleftrightarrow>
     0 \<le> y \<and> y < int (length (solution b)) \<and> 0 \<le> x \<and> x < int (length (col_is_free b))
     \<and> 0 \<le> wrap_int (wrap_int (y - x) + shift_diag45 b)
     \<and> wrap_int (wrap_int (y - x) + shift_diag45 b) < int (length (diag45_is_free b))
     \<and> 0 \<le> wrap_int (y + x) \<and> wrap_int (y + x) < int (length (diag135_is_free b))
     \<and> b' = b\<lparr>solution := (solution b)[nat y := x], col_is_free := (col_is_free b)[nat x := 0],
          diag45_is_free := (diag45_is_free b)[nat (wrap_int (wrap_int (y - x) + shift_diag45 b)) := 0],
          diag135_is_free := (diag135_is_free b)[nat (wrap_int (y + x)) := 0]\<rparr>"
  by (auto simp: place_queen_def wr_def)

lemma remove_queen_eq_Inr:
  "remove_queen b x y = Inr b' \<longleftrightarrow>
     0 \<le> y \<and> y < int (length (solution b)) \<and> 0 \<le> x \<and> x < int (length (col_is_free b))
     \<and> 0 \<le> wrap_int (wrap_int (y - x) + shift_diag45 b)
     \<and> wrap_int (wrap_int (y - x) + shift_diag45 b) < int (length (diag45_is_free b))
     \<and> 0 \<le> wrap_int (y + x) \<and> wrap_int (y + x) < int (length (diag135_is_free b))
     \<and> b' = b\<lparr>solution := (solution b)[nat y := - 1], col_is_free := (col_is_free b)[nat x := 1],
          diag45_is_free := (diag45_is_free b)[nat (wrap_int (wrap_int (y - x) + shift_diag45 b)) := 1],
          diag135_is_free := (diag135_is_free b)[nat (wrap_int (y + x)) := 1]\<rparr>"
  by (auto simp: remove_queen_def wr_def)

lemma can_place_queen_eq_True:
  "can_place_queen b x y = Inr True \<longleftrightarrow>
     0 \<le> x \<and> x < int (length (col_is_free b)) \<and> col_is_free b ! nat x \<noteq> 0
     \<and> 0 \<le> wrap_int (wrap_int (y - x) + shift_diag45 b)
     \<and> wrap_int (wrap_int (y - x) + shift_diag45 b) < int (length (diag45_is_free b))
     \<and> diag45_is_free b ! nat (wrap_int (wrap_int (y - x) + shift_diag45 b)) \<noteq> 0
     \<and> 0 \<le> wrap_int (y + x) \<and> wrap_int (y + x) < int (length (diag135_is_free b))
     \<and> diag135_is_free b ! nat (wrap_int (y + x)) \<noteq> 0"
  by (auto simp: can_place_queen_def rd_def)

lemma place_queen_row_order_len:
  assumes len: "int (length (solution b)) = size_b b" and ro: "row_order b y" and x: "0 \<le> x"
    and pl: "place_queen b x y = Inr b'"
  shows "row_order b' (y + 1)" and "size_b b' = size_b b"
    and "length (solution b') = length (solution b)"
proof -
  from pl have y: "0 \<le> y" "y < size_b b" and n': "size_b b' = size_b b"
    and s': "solution b' = (solution b)[nat y := x]"
    using len by (simp_all add: place_queen_eq_Inr)
  show "size_b b' = size_b b" by (rule n')
  show "length (solution b') = length (solution b)" by (simp add: s')
  show "row_order b' (y + 1)"
    using ro y x len unfolding row_order_def n' s'
    by (auto simp: nth_list_update)
qed

lemma remove_queen_row_order_len:
  assumes len: "int (length (solution b)) = size_b b" and ro: "row_order b (y + 1)"
    and rm: "remove_queen b x y = Inr b'"
  shows "row_order b' y" and "size_b b' = size_b b"
    and "length (solution b') = length (solution b)"
proof -
  from rm have y: "0 \<le> y" "y < size_b b" and n': "size_b b' = size_b b"
    and s': "solution b' = (solution b)[nat y := - 1]"
    using len by (simp_all add: remove_queen_eq_Inr)
  show "size_b b' = size_b b" by (rule n')
  show "length (solution b') = length (solution b)" by (simp add: s')
  show "row_order b' y"
    using ro y len unfolding row_order_def n' s'
    by (auto simp: nth_list_update)
qed

lemma card_zero_cells_le: "card {i. i < length xs \<and> xs ! i = (0::int)} \<le> length xs"
proof -
  have "card {i. i < length xs \<and> xs ! i = 0} \<le> card {..<length xs}"
    by (rule card_mono) auto
  then show ?thesis by simp
qed

lemma card_zero_cells_place:
  assumes "j < length xs" "xs ! j \<noteq> (0::int)"
  shows "card {i. i < length (xs[j := 0]) \<and> xs[j := 0] ! i = 0}
       = Suc (card {i. i < length xs \<and> xs ! i = 0})"
proof -
  have "{i. i < length (xs[j := 0]) \<and> xs[j := 0] ! i = 0}
      = insert j {i. i < length xs \<and> xs ! i = 0}"
    using assms by (auto simp: nth_list_update)
  moreover have "finite {i. i < length xs \<and> xs ! i = 0}" by simp
  moreover have "j \<notin> {i. i < length xs \<and> xs ! i = 0}" using assms by simp
  ultimately show ?thesis by simp
qed

lemma card_zero_cells_remove:
  "card {i. i < length xs \<and> xs ! i = (0::int)}
     \<le> Suc (card {i. i < length (xs[j := 1]) \<and> xs[j := 1] ! i = 0})"
proof -
  have "{i. i < length xs \<and> xs ! i = 0}
      \<subseteq> insert j {i. i < length (xs[j := 1]) \<and> xs[j := 1] ! i = 0}"
    by (auto simp: nth_list_update)
  then have "card {i. i < length xs \<and> xs ! i = 0}
      \<le> card (insert j {i. i < length (xs[j := 1]) \<and> xs[j := 1] ! i = 0})"
    by (intro card_mono) simp_all
  also have "\<dots> \<le> Suc (card {i. i < length (xs[j := 1]) \<and> xs[j := 1] ! i = 0})"
    by (simp add: card_insert_if)
  finally show ?thesis .
qed

lemma created_diag_short:
  assumes "2147483647 < 2 * n - 1"
  shows "int (nat (wrap_int (wrap_int (n * 2) - 1))) < n"
proof (cases "n \<le> 2147483647")
  case True
  have "wrap_int (wrap_int (n * 2) - 1) = wrap_int (n * 2 - 1)" by (rule wrap_int_diff_left)
  also have "\<dots> = n * 2 - 1 - 4294967296"
  proof -
    have "(n * 2 - 1 + 2147483648) mod 4294967296
        = (n * 2 - 2147483649 + 4294967296) mod 4294967296" by simp
    also have "\<dots> = (n * 2 - 2147483649) mod 4294967296" by (rule mod_add_self2)
    also have "\<dots> = n * 2 - 2147483649" using True assms by (intro mod_pos_pos_trivial) simp_all
    finally show ?thesis by (simp add: wrap_int_def)
  qed
  finally show ?thesis using True assms by simp
next
  case False
  with wrap_int_range(2)[of "wrap_int (n * 2) - 1"] show ?thesis by simp
qed

lemma search_reach_rows:
  "search_reach n b y \<Longrightarrow>
     size_b b = n \<and> int (length (solution b)) = n
     \<and> length (diag135_is_free b) = nat (wrap_int (wrap_int (n * 2) - 1))
     \<and> row_order b y
     \<and> nat y \<le> card {i. i < length (diag135_is_free b) \<and> diag135_is_free b ! i = 0}"
proof (induct rule: search_reach.induct)
  case (start b)
  then have "b = created_board n" by (simp add: create_board_created)
  with start(1) show ?case by (simp add: created_board_def row_order_def)
next
  case (place b y x b')
  then have n: "size_b b = n" and len: "int (length (solution b)) = size_b b"
    and dl: "length (diag135_is_free b) = nat (wrap_int (wrap_int (n * 2) - 1))"
    and ro: "row_order b y"
    and cnt: "nat y \<le> card {i. i < length (diag135_is_free b) \<and> diag135_is_free b ! i = 0}"
    by blast+
  note r = place_queen_row_order_len[OF len ro place(3) place(6)]
  from place(5) have j: "nat (wrap_int (y + x)) < length (diag135_is_free b)"
    and fr: "diag135_is_free b ! nat (wrap_int (y + x)) \<noteq> 0"
    by (auto simp: can_place_queen_eq_True)
  from place(6) have d': "diag135_is_free b' = (diag135_is_free b)[nat (wrap_int (y + x)) := 0]"
    by (simp add: place_queen_eq_Inr)
  from ro have "0 \<le> y" by (simp add: row_order_def)
  then have "nat (y + 1) = Suc (nat y)" by simp
  with cnt have "nat (y + 1) \<le> card {i. i < length (diag135_is_free b') \<and> diag135_is_free b' ! i = 0}"
    unfolding d' card_zero_cells_place[OF j fr] by simp
  moreover have "length (diag135_is_free b') = length (diag135_is_free b)" by (simp add: d')
  ultimately show ?case using r n len dl by simp
next
  case (remove b y x b')
  then have n: "size_b b = n" and len: "int (length (solution b)) = size_b b"
    and dl: "length (diag135_is_free b) = nat (wrap_int (wrap_int (n * 2) - 1))"
    and ro: "row_order b (y + 1)"
    and cnt: "nat (y + 1) \<le> card {i. i < length (diag135_is_free b) \<and> diag135_is_free b ! i = 0}"
    by blast+
  note r = remove_queen_row_order_len[OF len ro remove(4)]
  from remove(4) have d': "diag135_is_free b' = (diag135_is_free b)[nat (wrap_int (y + x)) := 1]"
    by (simp add: remove_queen_eq_Inr)
  from r(1) have "0 \<le> y" by (simp add: row_order_def)
  then have "nat (y + 1) = Suc (nat y)" by simp
  with cnt card_zero_cells_remove[of "diag135_is_free b" "nat (wrap_int (y + x))"]
  have "nat y \<le> card {i. i < length (diag135_is_free b') \<and> diag135_is_free b' ! i = 0}"
    unfolding d' by simp
  moreover have "length (diag135_is_free b') = length (diag135_is_free b)" by (simp add: d')
  ultimately show ?case using r n len dl by simp
qed

lemma search_reach_large_incomplete:
  assumes sr: "search_reach n b y" and big: "2147483647 < 2 * n - 1"
  shows "y < n"
proof -
  from search_reach_rows[OF sr]
  have dl: "length (diag135_is_free b) = nat (wrap_int (wrap_int (n * 2) - 1))"
    and cnt: "nat y \<le> card {i. i < length (diag135_is_free b) \<and> diag135_is_free b ! i = 0}"
    by blast+
  from cnt card_zero_cells_le[of "diag135_is_free b"] have "nat y \<le> length (diag135_is_free b)"
    by (rule order_trans)
  with dl have "nat y \<le> nat (wrap_int (wrap_int (n * 2) - 1))" by simp
  then have "int (nat y) \<le> int (nat (wrap_int (wrap_int (n * 2) - 1)))"
    by (simp only: of_nat_le_iff)
  also note created_diag_short[OF big]
  finally show ?thesis by linarith
qed

lemma is_valid_row_order_len:
  assumes len: "int (length (solution b)) = size_b b" and n: "0 < size_b b" and ro: "row_order b y"
  shows "is_valid b = Inr (y = size_b b)"
proof -
  have "(solution b ! nat (size_b b - 1) \<noteq> - 1) = (y = size_b b)"
    using ro n unfolding row_order_def
    by (cases "y = size_b b") auto
  then show ?thesis using len n by (simp add: is_valid_def rd_in)
qed

lemma is_valid_row_order:
  assumes wf: "wf_board b" and ro: "row_order b y"
  shows "is_valid b = Inr (y = size_b b)"
proof -
  have "0 < size_b b" using wf by (simp add: wf_board_def)
  then have "(solution b ! nat (size_b b - 1) \<noteq> - 1) = (y = size_b b)"
    using ro unfolding row_order_def
    by (cases "y = size_b b") auto
  then show ?thesis by (simp add: is_valid_wf[OF wf])
qed

text \<open>
  C1: \<open>search_reach n b y\<close> collects the boards the two search procedures pass through:
  the board returned by \<open>create_board n\<close>, a queen placed in the next row \<open>y\<close> at a
  column \<open>x < size\<close> for which \<open>can_place_queen\<close> returned true, and the removal of the
  queen of the last placed row. On every such board, if \<open>is_valid\<close> returns true, then
  the sequence that \<open>print_board\<close> reads off the board is the whole \<open>solution\<close> array:
  it has \<open>n\<close> entries, each a column in \<open>[0, n)\<close>, no two equal and no two on a common
  rising or falling diagonal. The statement holds for every \<open>n > 0\<close>: where the
  diagonal length \<open>2n - 1\<close> wraps around, the diagonal arrays of the created board have
  fewer than \<open>n\<close> cells, every placed queen clears one more cell of \<^verbatim>\<open>diag135_is_free\<close>,
  and so the last row is never placed.
\<close>

theorem complete_board_is_solution:
  assumes "search_reach n b y" and "is_valid b = Inr True"
  shows "\<exists>sol. print_board b = Inr sol \<and> sol = solution b \<and> is_solution n sol"
proof -
  from search_reach_rows[OF assms(1)]
  have n: "size_b b = n" and len: "int (length (solution b)) = size_b b" and ro: "row_order b y"
    by simp_all
  from search_reach_pos[OF assms(1)] n have "0 < size_b b" by simp
  from assms(2) is_valid_row_order_len[OF len this ro] have y: "y = size_b b" by simp
  have small: "2 * n - 1 \<le> 2147483647"
  proof (rule ccontr)
    assume "\<not> 2 * n - 1 \<le> 2147483647"
    then have "2147483647 < 2 * n - 1" by simp
    from search_reach_large_incomplete[OF assms(1) this] y n show False by simp
  qed
  from search_reach_inv[OF assms(1) small] have c: "consistent b" by simp
  from c have wf: "wf_board b" by (simp add: consistent_def)
  from complete_rows_solution[OF c] ro n y have "is_solution n (solution b)" by simp
  with print_board_wf[OF wf] show ?thesis by simp
qed

theorem complete_board_is_solution_witness:
  "search_reach 4 \<lparr>size_b = 4, shift_diag45 = 3, solution = [1, 3, 0, 2],
       col_is_free = [0, 0, 0, 0], diag45_is_free = [1, 0, 0, 1, 0, 0, 1],
       diag135_is_free = [1, 0, 0, 1, 0, 0, 1]\<rparr> 4
   \<and> is_valid \<lparr>size_b = 4, shift_diag45 = 3, solution = [1, 3, 0, 2],
       col_is_free = [0, 0, 0, 0], diag45_is_free = [1, 0, 0, 1, 0, 0, 1],
       diag135_is_free = [1, 0, 0, 1, 0, 0, 1]\<rparr> = Inr True
   \<and> print_board \<lparr>size_b = 4, shift_diag45 = 3, solution = [1, 3, 0, 2],
       col_is_free = [0, 0, 0, 0], diag45_is_free = [1, 0, 0, 1, 0, 0, 1],
       diag135_is_free = [1, 0, 0, 1, 0, 0, 1]\<rparr> = Inr [1, 3, 0, 2]
   \<and> is_solution 4 [1, 3, 0, 2]"
proof -
  let ?b0 = "empty_board 4"
  let ?b1 = "\<lparr>size_b = 4, shift_diag45 = 3, solution = [1, - 1, - 1, - 1],
       col_is_free = [1, 0, 1, 1], diag45_is_free = [1, 1, 0, 1, 1, 1, 1],
       diag135_is_free = [1, 0, 1, 1, 1, 1, 1]\<rparr>"
  let ?b2 = "\<lparr>size_b = 4, shift_diag45 = 3, solution = [1, 3, - 1, - 1],
       col_is_free = [1, 0, 1, 0], diag45_is_free = [1, 0, 0, 1, 1, 1, 1],
       diag135_is_free = [1, 0, 1, 1, 0, 1, 1]\<rparr>"
  let ?b3 = "\<lparr>size_b = 4, shift_diag45 = 3, solution = [1, 3, 0, - 1],
       col_is_free = [0, 0, 1, 0], diag45_is_free = [1, 0, 0, 1, 1, 0, 1],
       diag135_is_free = [1, 0, 0, 1, 0, 1, 1]\<rparr>"
  let ?b4 = "\<lparr>size_b = 4, shift_diag45 = 3, solution = [1, 3, 0, 2],
       col_is_free = [0, 0, 0, 0], diag45_is_free = [1, 0, 0, 1, 0, 0, 1],
       diag135_is_free = [1, 0, 0, 1, 0, 0, 1]\<rparr>"
  have r0: "search_reach 4 ?b0 0"
    by (rule search_reach.start) (simp_all add: create_board_eq)
  have c1: "can_place_queen ?b0 1 0 = Inr True" and p1: "place_queen ?b0 1 0 = Inr ?b1"
    by code_simp+
  have r1: "search_reach 4 ?b1 (0 + 1)"
    by (rule search_reach.place[OF r0 _ _ c1 p1]) (simp_all add: empty_board_def)
  have c2: "can_place_queen ?b1 3 (0 + 1) = Inr True" and p2: "place_queen ?b1 3 (0 + 1) = Inr ?b2"
    by code_simp+
  have r2: "search_reach 4 ?b2 (0 + 1 + 1)"
    by (rule search_reach.place[OF r1 _ _ c2 p2]) simp_all
  have c3: "can_place_queen ?b2 0 (0 + 1 + 1) = Inr True" and p3: "place_queen ?b2 0 (0 + 1 + 1) = Inr ?b3"
    by code_simp+
  have r3: "search_reach 4 ?b3 (0 + 1 + 1 + 1)"
    by (rule search_reach.place[OF r2 _ _ c3 p3]) simp_all
  have c4: "can_place_queen ?b3 2 (0 + 1 + 1 + 1) = Inr True"
    and p4: "place_queen ?b3 2 (0 + 1 + 1 + 1) = Inr ?b4"
    by code_simp+
  have "search_reach 4 ?b4 (0 + 1 + 1 + 1 + 1)"
    by (rule search_reach.place[OF r3 _ _ c4 p4]) simp_all
  then have r4: "search_reach 4 ?b4 4" by simp
  have v: "is_valid ?b4 = Inr True" by code_simp
  from complete_board_is_solution[OF r4 v] r4 v show ?thesis by simp
qed

section \<open>Backtracking returns\<close>




section \<open>Backtracking is sound and complete\<close>

lemma no_conflictD:
  assumes "no_conflict sol" "0 \<le> y'" "y' < y" "y < int (length sol)"
  shows "sol ! nat y' \<noteq> sol ! nat y \<and> y' - sol ! nat y' \<noteq> y - sol ! nat y
       \<and> y' + sol ! nat y' \<noteq> y + sol ! nat y"
proof -
  from assms(2-4) have "nat y \<in> {0..<length sol}" "nat y' \<in> {0..<nat y}" by auto
  with assms(1) have "sol ! nat y' \<noteq> sol ! nat y
        \<and> int (nat y') - sol ! nat y' \<noteq> int (nat y) - sol ! nat y
        \<and> int (nat y') + sol ! nat y' \<noteq> int (nat y) + sol ! nat y"
    unfolding no_conflict_def by blast
  with assms(2,3) show ?thesis by simp
qed

lemma blocked_square:
  assumes c: "consistent b" and ro: "row_order b y" and y: "y < size_b b"
    and x: "0 \<le> x" "x < size_b b" and cp: "can_place_queen b x y = Inr False"
    and sol: "is_solution (size_b b) sol" and ag: "agrees b y sol"
  shows "sol ! nat y \<noteq> x"
proof -
  let ?n = "size_b b"
  from c have wf: "wf_board b" and ls: "lockstep b" by (simp_all add: consistent_def)
  from ro have y0: "0 \<le> y" by (simp add: row_order_def)
  have sh: "shift_diag45 b = ?n - 1" using wf by (simp add: wf_board_def)
  from sol have len: "int (length sol) = ?n" and nc: "no_conflict sol"
    by (simp_all add: is_solution_def)
  \<comment> \<open>a placed queen of the board lies in a row below \<open>y\<close>, where \<open>sol\<close> agrees\<close>
  have below: "y' < y \<and> sol ! nat y' = solution b ! nat y'"
    if "y' \<in> {0..<?n}" "solution b ! nat y' \<noteq> - 1" for y'
  proof -
    from ro that have "y' < y" unfolding row_order_def by force
    with that ag show ?thesis unfolding agrees_def by auto
  qed
  from cp can_place_queen_wf[OF wf x y0 y] sh
  consider "col_is_free b ! nat x = 0" | "diag45_is_free b ! nat (y - x + (?n - 1)) = 0"
    | "diag135_is_free b ! nat (y + x) = 0"
    by auto
  then show ?thesis
  proof cases
    case 1
    from ls x have "(col_is_free b ! nat x = 0) = (\<exists>y'\<in>{0..<?n}. solution b ! nat y' = x)"
      unfolding lockstep_def by simp
    with 1 obtain y' where y': "y' \<in> {0..<?n}" "solution b ! nat y' = x" by blast
    with x below[of y'] have "y' < y" "sol ! nat y' = x" by auto
    with no_conflictD[OF nc _ this(1)] y' y len show ?thesis by auto
  next
    case 2
    from x y y0 have "y - x + (?n - 1) \<in> {0..<2 * ?n - 1}" by auto
    with ls have "(diag45_is_free b ! nat (y - x + (?n - 1)) = 0) =
        (\<exists>y'\<in>{0..<?n}. solution b ! nat y' \<noteq> - 1
            \<and> y' - solution b ! nat y' + (?n - 1) = y - x + (?n - 1))"
      unfolding lockstep_def by blast
    with 2 obtain y' where y': "y' \<in> {0..<?n}" "solution b ! nat y' \<noteq> - 1"
      "y' - solution b ! nat y' + (?n - 1) = y - x + (?n - 1)" by blast
    with below[of y'] have "y' < y" "y' - sol ! nat y' = y - x" by auto
    with no_conflictD[OF nc _ this(1)] y' y len show ?thesis by auto
  next
    case 3
    from x y y0 have "y + x \<in> {0..<2 * ?n - 1}" by auto
    with ls have "(diag135_is_free b ! nat (y + x) = 0) =
        (\<exists>y'\<in>{0..<?n}. solution b ! nat y' \<noteq> - 1 \<and> y' + solution b ! nat y' = y + x)"
      unfolding lockstep_def by blast
    with 3 obtain y' where y': "y' \<in> {0..<?n}" "solution b ! nat y' \<noteq> - 1"
      "y' + solution b ! nat y' = y + x" by blast
    with below[of y'] have "y' < y" "y' + sol ! nat y' = y + x" by auto
    with no_conflictD[OF nc _ this(1)] y' y len show ?thesis by auto
  qed
qed

lemma agrees_place:
  assumes wf: "wf_board b" and pl: "place_queen b x y = Inr b1" and y: "0 \<le> y" "y < size_b b"
  shows "agrees b1 (y + 1) sol \<longleftrightarrow> agrees b y sol \<and> sol ! nat y = x"
proof -
  have "agrees b1 (y + 1) sol \<longleftrightarrow> (\<forall>i\<in>{0..<y + 1}. sol ! nat i = (if i = y then x else solution b ! nat i))"
    unfolding agrees_def using y
    by (intro ball_cong refl) (simp add: place_queen_solution[OF wf pl])
  also have "\<dots> \<longleftrightarrow> agrees b y sol \<and> sol ! nat y = x"
    unfolding agrees_def using y by (auto simp: less_le)
  finally show ?thesis .
qed

lemma backtrack_search_aux:
  assumes small: "2 * n - 1 \<le> 2147483647"
  shows "search_reach n b y \<longrightarrow>
     (\<exists>b' r. backtrack b y = Inr (b', r)
        \<and> (r \<longrightarrow> search_reach n b' n \<and> agrees b y (solution b'))
        \<and> (\<not> r \<longrightarrow> b' = b \<and> (\<forall>sol. is_solution n sol \<longrightarrow> \<not> agrees b y sol)))"
    and "search_reach n b y \<and> y < n \<and> 0 \<le> x \<longrightarrow>
     (\<exists>b' r. backtrack_loop b y x = Inr (b', r)
        \<and> (r \<longrightarrow> search_reach n b' n \<and> agrees b y (solution b'))
        \<and> (\<not> r \<longrightarrow> b' = b \<and> (\<forall>sol. is_solution n sol \<and> agrees b y sol \<longrightarrow> sol ! nat y < x)))"
proof (induct b y and b y x rule: backtrack_backtrack_loop.induct)
  case (1 b y)
  show ?case
  proof
    assume sr: "search_reach n b y"
    from search_reach_inv[OF sr small]
    have c: "consistent b" and n: "size_b b = n" and ro: "row_order b y" by simp_all
    from c have wf: "wf_board b" by (simp add: consistent_def)
    note v = is_valid_row_order[OF wf ro]
    show "\<exists>b' r. backtrack b y = Inr (b', r)
        \<and> (r \<longrightarrow> search_reach n b' n \<and> agrees b y (solution b'))
        \<and> (\<not> r \<longrightarrow> b' = b \<and> (\<forall>sol. is_solution n sol \<longrightarrow> \<not> agrees b y sol))"
    proof (cases "y = size_b b")
      case True
      with v have "backtrack b y = Inr (b, True)" by (simp add: backtrack.simps)
      with sr True n show ?thesis
        by (intro exI[of _ b] exI[of _ True]) (simp add: agrees_def)
    next
      case False
      with ro n have lt: "y < n" and y0: "0 \<le> y" by (simp_all add: row_order_def)
      from False v have eq: "backtrack b y = backtrack_loop b y 0" by (simp add: backtrack.simps)
      from "1"[OF v] False sr lt
      obtain b' r where res: "backtrack_loop b y 0 = Inr (b', r)"
        and yes: "r \<longrightarrow> search_reach n b' n \<and> agrees b y (solution b')"
        and no: "\<not> r \<longrightarrow> b' = b \<and> (\<forall>sol. is_solution n sol \<and> agrees b y sol \<longrightarrow> sol ! nat y < 0)"
        by auto
      have "\<not> agrees b y sol" if "\<not> r" "is_solution n sol" for sol
      proof
        assume "agrees b y sol"
        with no that have "sol ! nat y < 0" by blast
        moreover from that(2) lt y0 have "sol ! nat y \<in> set sol"
          by (intro nth_mem) (auto simp: is_solution_def)
        ultimately show False using that(2) by (auto simp: is_solution_def)
      qed
      with res yes no eq show ?thesis by auto
    qed
  qed
next
  case (2 b y x)
  show ?case
  proof (intro impI, elim conjE)
    assume sr: "search_reach n b y" and y: "y < n" and x: "0 \<le> x"
    from search_reach_inv[OF sr small]
    have c: "consistent b" and n: "size_b b = n" and ro: "row_order b y" by simp_all
    from c have wf: "wf_board b" by (simp add: consistent_def)
    from ro have y0: "0 \<le> y" by (simp add: row_order_def)
    from ro y n have free: "solution b ! nat y = - 1" by (simp add: row_order_def)
    let ?goal = "\<exists>b' r. backtrack_loop b y x = Inr (b', r)
        \<and> (r \<longrightarrow> search_reach n b' n \<and> agrees b y (solution b'))
        \<and> (\<not> r \<longrightarrow> b' = b \<and> (\<forall>sol. is_solution n sol \<and> agrees b y sol \<longrightarrow> sol ! nat y < x))"
    show ?goal
    proof (cases "x < size_b b")
      case False
      then have eq: "backtrack_loop b y x = Inr (b, False)"
        by (simp add: backtrack_loop.simps[of b y x])
      have "sol ! nat y < x" if "is_solution n sol" for sol
      proof -
        from that y y0 have "sol ! nat y \<in> set sol"
          by (intro nth_mem) (auto simp: is_solution_def)
        with that have "sol ! nat y < n" by (auto simp: is_solution_def)
        with False n show ?thesis by simp
      qed
      with eq show ?thesis by (intro exI[of _ b] exI[of _ False]) simp
    next
      case lt: True
      from y n have yl: "y < size_b b" by simp
      obtain ok where cp: "can_place_queen b x y = Inr ok"
        using can_place_queen_wf[OF wf x lt y0 yl] by blast
      show ?thesis
      proof (cases ok)
        case False
        with cp lt have eq: "backtrack_loop b y x = backtrack_loop b y (x + 1)"
          by (simp add: backtrack_loop.simps[of b y x])
        from "2"(3)[OF lt cp False] sr y x
        obtain b' r where res: "backtrack_loop b y (x + 1) = Inr (b', r)"
          and yes: "r \<longrightarrow> search_reach n b' n \<and> agrees b y (solution b')"
          and no: "\<not> r \<longrightarrow> b' = b \<and> (\<forall>sol. is_solution n sol \<and> agrees b y sol \<longrightarrow> sol ! nat y < x + 1)"
          by auto
        have "sol ! nat y < x" if "\<not> r" "is_solution n sol" "agrees b y sol" for sol
        proof -
          from no that have "sol ! nat y < x + 1" by blast
          moreover from cp False have "can_place_queen b x y = Inr False" by simp
          from blocked_square[OF c ro yl x lt this] that n have "sol ! nat y \<noteq> x" by simp
          ultimately show ?thesis by simp
        qed
        with res yes no eq show ?thesis by auto
      next
        case True
        obtain b1 where pl: "place_queen b x y = Inr b1"
          using place_queen_wf[OF wf x lt y0 yl] by blast
        from cp True have cpt: "can_place_queen b x y = Inr True" by simp
        have sr1: "search_reach n b1 (y + 1)"
          using search_reach.place[OF sr x lt cpt pl] .
        note ag1 = agrees_place[OF wf pl y0 yl]
        from "2"(1)[OF lt cp True pl] sr1
        obtain b2 r where bt: "backtrack b1 (y + 1) = Inr (b2, r)"
          and yes: "r \<longrightarrow> search_reach n b2 n \<and> agrees b1 (y + 1) (solution b2)"
          and no: "\<not> r \<longrightarrow> b2 = b1 \<and> (\<forall>sol. is_solution n sol \<longrightarrow> \<not> agrees b1 (y + 1) sol)"
          by auto
        show ?thesis
        proof (cases r)
          case True
          with bt pl cp \<open>ok\<close> lt have "backtrack_loop b y x = Inr (b2, True)"
            by (simp add: backtrack_loop.simps[of b y x])
          moreover from yes True ag1 have "search_reach n b2 n \<and> agrees b y (solution b2)"
            by simp
          ultimately show ?thesis by (intro exI[of _ b2] exI[of _ True]) simp
        next
          case False
          with no have b2: "b2 = b1" and none: "\<forall>sol. is_solution n sol \<longrightarrow> \<not> agrees b1 (y + 1) sol"
            by simp_all
          have rm: "remove_queen b2 x y = Inr b"
            unfolding b2 using remove_after_place[OF c x lt y0 yl free cpt pl] .
          from False bt pl cp \<open>ok\<close> lt rm
          have eq: "backtrack_loop b y x = backtrack_loop b y (x + 1)"
            by (simp add: backtrack_loop.simps[of b y x])
          from "2"(2)[OF lt cp \<open>ok\<close> pl bt refl False rm] sr y x
          obtain b' r' where res: "backtrack_loop b y (x + 1) = Inr (b', r')"
            and yes': "r' \<longrightarrow> search_reach n b' n \<and> agrees b y (solution b')"
            and no': "\<not> r' \<longrightarrow> b' = b \<and> (\<forall>sol. is_solution n sol \<and> agrees b y sol \<longrightarrow> sol ! nat y < x + 1)"
            by auto
          have "sol ! nat y < x" if "\<not> r'" "is_solution n sol" "agrees b y sol" for sol
          proof -
            from no' that have "sol ! nat y < x + 1" by blast
            moreover from none that ag1[of sol] have "sol ! nat y \<noteq> x" by blast
            ultimately show ?thesis by simp
          qed
          with res yes' no' eq show ?thesis by auto
        qed
      qed
    qed
  qed
qed

lemma backtrack_sound:
  assumes "search_reach n b y" and "backtrack b y = Inr (b', True)"
    and small: "2 * n - 1 \<le> 2147483647"
  shows "search_reach n b' n" and "agrees b y (solution b')" and "is_solution n (solution b')"
proof -
  from backtrack_search_aux(1)[OF small, of b y] assms(1,2)
  show sr: "search_reach n b' n" and "agrees b y (solution b')" by auto
  from search_reach_inv[OF sr small] complete_rows_solution[of b']
  show "is_solution n (solution b')" by auto
qed

lemma backtrack_failure:
  assumes "search_reach n b y" and "backtrack b y = Inr (b', False)"
    and small: "2 * n - 1 \<le> 2147483647"
  shows "b' = b" and "is_solution n sol \<Longrightarrow> \<not> agrees b y sol"
  using backtrack_search_aux(1)[OF small, of b y] assms(1,2) by auto

lemma backtrack_complete:
  assumes "search_reach n b y" and "is_solution n sol" and "agrees b y sol"
    and small: "2 * n - 1 \<le> 2147483647"
  shows "\<exists>b'. backtrack b y = Inr (b', True)"
proof -
  from backtrack_search_aux(1)[OF small, of b y] assms(1)
  obtain b' r where res: "backtrack b y = Inr (b', r)"
    and no: "\<not> r \<longrightarrow> b' = b \<and> (\<forall>sol. is_solution n sol \<longrightarrow> \<not> agrees b y sol)"
    by auto
  from no assms(2,3) have r by blast
  with res show ?thesis by auto
qed

section \<open>The retry loop without random queens\<close>

lemma solve_lv_zero:
  "solve_lv rng b 0 s = (case backtrack b 0 of Inl e \<Rightarrow> Inl e | Inr (b1, r) \<Rightarrow> Inr (b1, r, s))"
  unfolding solve_lv_def by (subst solve_lv_loop.simps) simp

lemma wrap_int_1: "wrap_int 1 = 1"
  by (simp add: wrap_int_def)

lemma repeat_lv_loop_never_returns_aux:
  assumes r: "reset_board b0 = Inr b0" and f: "solve_lv rng b0 k s = Inr (b0, False, s)"
  shows "repeat_lv_loop rng' b k' t s' = Some v \<Longrightarrow>
     rng' = rng \<longrightarrow> k' = k \<longrightarrow> s' = s \<longrightarrow> reset_board b = Inr b0 \<longrightarrow> False"
proof (induct rule: repeat_lv_loop.raw_induct[rotated 1, consumes 1])
  case (1 loop rng' b k' t s' v)
  show ?case
  proof (intro impI)
    assume eq: "rng' = rng" "k' = k" "s' = s" and rb: "reset_board b = Inr b0"
    from "1"(2) have "loop rng b0 k (wrap_int (t + 1)) s = Some v"
      by (simp add: eq rb f)
    from "1"(1)[OF this] r show False by simp
  qed
qed

lemma repeat_lv_loop_never_returns:
  assumes "reset_board b0 = Inr b0" and "solve_lv rng b0 k s = Inr (b0, False, s)"
    and "reset_board b = Inr b0"
  shows "repeat_lv_loop rng b k t s = None"
proof (cases "repeat_lv_loop rng b k t s")
  case None
  then show ?thesis .
next
  case (Some v)
  from repeat_lv_loop_never_returns_aux[OF assms(1,2) Some] assms(3) show ?thesis by simp
qed

lemma search_reach_empty_board:
  "0 < n \<Longrightarrow> n \<le> 1073741824 \<Longrightarrow> search_reach n (empty_board n) 0"
  by (rule search_reach.start) (simp_all add: create_board_eq)

text \<open>
  C5 (as amended): on a board of size \<open>n > 0\<close> whose diagonal length \<open>2n - 1\<close> is an
  \<^verbatim>\<open>int\<close>, \<open>repeat_lv\<close> with no random queens first resets the board and then
  runs \<open>backtrack\<close> from row 0. If an \<open>n\<close>-queens solution exists, that first run
  succeeds: \<open>repeat_lv\<close> returns the board \<open>backtrack\<close> produces on the reset board,
  with \<open>trials = 1\<close> and without drawing a random number. If no solution exists the
  run fails, the next trial meets the same reset board, and \<open>repeat_lv\<close> never returns.
\<close>

theorem repeat_lv_zero_random_queens:
  assumes wf: "wf_board b"
  shows "((\<exists>sol. is_solution (size_b b) sol) \<longrightarrow>
            (\<exists>b0 b'. reset_board b = Inr b0 \<and> backtrack b0 0 = Inr (b', True)
               \<and> repeat_lv rng b 0 s = Some (Inr (b', 1, s))))
       \<and> (\<not> (\<exists>sol. is_solution (size_b b) sol) \<longrightarrow>
            (\<exists>b0. reset_board b = Inr b0 \<and> backtrack b0 0 = Inr (b0, False)
               \<and> repeat_lv rng b 0 s = None))"
proof -
  let ?n = "size_b b"
  let ?b0 = "empty_board ?n"
  from wf have n: "0 < ?n" and small: "2 * ?n - 1 \<le> 2147483647" by (simp_all add: wf_board_def)
  from small have nb: "?n \<le> 1073741824" by simp
  have rb: "reset_board b = Inr ?b0" using reset_board_wf[OF wf] .
  have rb0: "reset_board ?b0 = Inr ?b0"
    using reset_board_wf[OF wf_empty_board[OF n nb]] by (simp add: empty_board_def)
  have sr: "search_reach ?n ?b0 0" using search_reach_empty_board[OF n nb] .
  have ag: "agrees ?b0 0 sol" for sol by (simp add: agrees_def)
  have yes: "\<exists>b0 b'. reset_board b = Inr b0 \<and> backtrack b0 0 = Inr (b', True)
               \<and> repeat_lv rng b 0 s = Some (Inr (b', 1, s))"
    if "\<exists>sol. is_solution ?n sol"
  proof -
    from that obtain sol where "is_solution ?n sol" ..
    from backtrack_complete[OF sr this ag small]
    obtain b' where bt: "backtrack ?b0 0 = Inr (b', True)" ..
    then have "solve_lv rng ?b0 0 s = Inr (b', True, s)" by (simp add: solve_lv_zero)
    then have "repeat_lv rng b 0 s = Some (Inr (b', 1, s))"
      unfolding repeat_lv_def
      by (subst repeat_lv_loop.simps) (simp add: rb wrap_int_1)
    with rb bt show ?thesis by blast
  qed
  have no: "\<exists>b0. reset_board b = Inr b0 \<and> backtrack b0 0 = Inr (b0, False)
               \<and> repeat_lv rng b 0 s = None"
    if none: "\<not> (\<exists>sol. is_solution ?n sol)"
  proof -
    from backtrack_search_aux(1)[OF small, of ?b0 0] sr
    obtain b' r where bt: "backtrack ?b0 0 = Inr (b', r)"
      and y: "r \<longrightarrow> search_reach ?n b' ?n" and f: "\<not> r \<longrightarrow> b' = ?b0"
      by auto
    have "\<not> r"
    proof
      assume r
      with bt have "backtrack ?b0 0 = Inr (b', True)" by simp
      from backtrack_sound(3)[OF sr this small] none show False by blast
    qed
    with bt f have bt0: "backtrack ?b0 0 = Inr (?b0, False)" by simp
    then have "solve_lv rng ?b0 0 s = Inr (?b0, False, s)" by (simp add: solve_lv_zero)
    from repeat_lv_loop_never_returns[OF rb0 this rb]
    have "repeat_lv rng b 0 s = None" by (simp add: repeat_lv_def)
    with rb bt0 show ?thesis by blast
  qed
  from yes no show ?thesis by blast
qed

lemma is_solution_4: "is_solution 4 [1, 3, 0, 2]"
  by code_simp

theorem repeat_lv_zero_random_queens_witness:
  "wf_board (empty_board 4) \<and> is_solution (size_b (empty_board 4)) [1, 3, 0, 2]
   \<and> (\<exists>b0 b'. reset_board (empty_board 4) = Inr b0 \<and> backtrack b0 0 = Inr (b', True)
               \<and> repeat_lv (\<lambda>k. k) (empty_board 4) 0 0 = Some (Inr (b', 1, 0)))
   \<and> wf_board (empty_board 3) \<and> \<not> (\<exists>sol. is_solution (size_b (empty_board 3)) sol)
   \<and> (\<exists>b0. reset_board (empty_board 3) = Inr b0 \<and> backtrack b0 0 = Inr (b0, False)
               \<and> repeat_lv (\<lambda>k. k) (empty_board 3) 0 0 = None)"
proof -
  have wf: "wf_board (empty_board 4)" by (simp add: wf_empty_board)
  have sol: "is_solution (size_b (empty_board 4)) [1, 3, 0, 2]"
    using is_solution_4 by (simp add: empty_board_def)
  then have ex: "\<exists>sol. is_solution (size_b (empty_board 4)) sol" ..
  have wf3: "wf_board (empty_board 3)" by (simp add: wf_empty_board)
  have bt3: "backtrack (empty_board 3) 0 = Inr (empty_board 3, False)" by code_simp
  have "\<not> is_solution 3 sol" for sol
    using backtrack_failure(2)[OF search_reach_empty_board bt3, of sol]
    by (auto simp: agrees_def)
  then have none: "\<not> (\<exists>sol. is_solution (size_b (empty_board 3)) sol)"
    by (simp add: empty_board_def)
  from repeat_lv_zero_random_queens[OF wf, of "\<lambda>k. k" 0]
    repeat_lv_zero_random_queens[OF wf3, of "\<lambda>k. k" 0] ex wf sol wf3 none
  show ?thesis by blast
qed

text \<open>
  C5 as stated, for every size \<open>n > 0\<close>, fails at \<open>n = 2\<close>: \<open>backtrack\<close> from row 0 on
  the reset board returns (with failure and the board unchanged), while \<open>repeat_lv\<close>
  with no random queens never returns, so it has no final board.
\<close>

theorem repeat_lv_size2_never_returns:
  "create_board 2 = Inr (empty_board 2)
   \<and> reset_board (empty_board 2) = Inr (empty_board 2)
   \<and> backtrack (empty_board 2) 0 = Inr (empty_board 2, False)
   \<and> repeat_lv (\<lambda>k. k) (empty_board 2) 0 0 = None"
proof -
  have rb: "reset_board (empty_board 2) = Inr (empty_board 2)"
    using reset_board_wf[OF wf_empty_board[of 2]] by (simp add: empty_board_def)
  have bt: "backtrack (empty_board 2) 0 = Inr (empty_board 2, False)" by code_simp
  then have "solve_lv (\<lambda>k. k) (empty_board 2) 0 0 = Inr (empty_board 2, False, 0)"
    by (simp add: solve_lv_zero)
  from repeat_lv_loop_never_returns[OF rb this rb]
  have "repeat_lv (\<lambda>k. k) (empty_board 2) 0 0 = None" by (simp add: repeat_lv_def)
  with rb bt create_board_eq[of 2] show ?thesis by simp
qed

section \<open>Well-nested place and remove sequences\<close>

lemma place_queen_flags_ok:
  assumes "flags_ok b" "place_queen b x y = Inr b'"
  shows "flags_ok b'"
proof -
  from assms(2) obtain s c d f where
    b': "b' = b\<lparr>solution := s, col_is_free := c, diag45_is_free := d, diag135_is_free := f\<rparr>"
    and c: "c = (col_is_free b)[nat x := 0]"
    and d: "d = (diag45_is_free b)[nat (wrap_int (wrap_int (y - x) + shift_diag45 b)) := 0]"
    and f: "f = (diag135_is_free b)[nat (wrap_int (y + x)) := 0]"
    by (auto simp: place_queen_def wr_eq_Inr split: sum.splits)
  show ?thesis
    using assms(1) set_update_subset_insert[of "col_is_free b" "nat x" 0]
      set_update_subset_insert[of "diag45_is_free b" "nat (wrap_int (wrap_int (y - x) + shift_diag45 b))" 0]
      set_update_subset_insert[of "diag135_is_free b" "nat (wrap_int (y + x))" 0]
    by (auto simp: flags_ok_def b' c d f)
qed

lemma remove_queen_flags_ok:
  assumes "flags_ok b" "remove_queen b x y = Inr b'"
  shows "flags_ok b'"
proof -
  from assms(2) obtain s c d f where
    b': "b' = b\<lparr>solution := s, col_is_free := c, diag45_is_free := d, diag135_is_free := f\<rparr>"
    and c: "c = (col_is_free b)[nat x := 1]"
    and d: "d = (diag45_is_free b)[nat (wrap_int (wrap_int (y - x) + shift_diag45 b)) := 1]"
    and f: "f = (diag135_is_free b)[nat (wrap_int (y + x)) := 1]"
    by (auto simp: remove_queen_def wr_eq_Inr split: sum.splits)
  show ?thesis
    using assms(1) set_update_subset_insert[of "col_is_free b" "nat x" 1]
      set_update_subset_insert[of "diag45_is_free b" "nat (wrap_int (wrap_int (y - x) + shift_diag45 b))" 1]
      set_update_subset_insert[of "diag135_is_free b" "nat (wrap_int (y + x))" 1]
    by (auto simp: flags_ok_def b' c d f)
qed

lemma flag_is_one:
  assumes "set xs \<subseteq> {0, 1::int}" "i < length xs" "xs ! i \<noteq> 0"
  shows "xs ! i = 1"
proof -
  from assms(2) have "xs ! i \<in> set xs" by (rule nth_mem)
  with assms(1) have "xs ! i \<in> {0, 1}" by blast
  with assms(3) show ?thesis by simp
qed

lemma unwound_after_place:
  assumes fl: "flags_ok b"
    and cp: "can_place_queen b x y = Inr True" and pl: "place_queen b x y = Inr b1"
    and u: "unwound b1 ((x, y) # st) b'"
  shows "unwound b st b'"
proof -
  from pl
  have b1: "b1 = b\<lparr>solution := (solution b)[nat y := x], col_is_free := (col_is_free b)[nat x := 0],
            diag45_is_free := (diag45_is_free b)[nat (wrap_int (wrap_int (y - x) + shift_diag45 b)) := 0],
            diag135_is_free := (diag135_is_free b)[nat (wrap_int (y + x)) := 0]\<rparr>"
    by (simp add: place_queen_eq_Inr)
  from cp
  have fr: "col_is_free b ! nat x \<noteq> 0" "diag45_is_free b ! nat (wrap_int (wrap_int (y - x) + shift_diag45 b)) \<noteq> 0"
    "diag135_is_free b ! nat (wrap_int (y + x)) \<noteq> 0"
    and ib: "nat x < length (col_is_free b)"
      "nat (wrap_int (wrap_int (y - x) + shift_diag45 b)) < length (diag45_is_free b)"
      "nat (wrap_int (y + x)) < length (diag135_is_free b)"
    by (auto simp: can_place_queen_eq_True)
  have one: "col_is_free b ! nat x = 1" "diag45_is_free b ! nat (wrap_int (wrap_int (y - x) + shift_diag45 b)) = 1"
    "diag135_is_free b ! nat (wrap_int (y + x)) = 1"
    using fl fr ib by (auto simp: flags_ok_def intro!: flag_is_one)
  have 1: "\<forall>i<length (col_is_free b). col_is_free b' ! i =
           (if i \<in> (\<lambda>p. nat (fst p)) ` set st then 1 else col_is_free b ! i)"
    using u one(1) unfolding unwound_def by (auto simp: b1 nth_list_update)
  have 2: "\<forall>i<length (diag45_is_free b). diag45_is_free b' ! i =
           (if i \<in> (\<lambda>p. nat (wrap_int (wrap_int (snd p - fst p) + shift_diag45 b))) ` set st then 1
            else diag45_is_free b ! i)"
    using u one(2) unfolding unwound_def by (auto simp: b1 nth_list_update)
  have 3: "\<forall>i<length (diag135_is_free b). diag135_is_free b' ! i =
           (if i \<in> (\<lambda>p. nat (wrap_int (snd p + fst p))) ` set st then 1 else diag135_is_free b ! i)"
    using u one(3) unfolding unwound_def by (auto simp: b1 nth_list_update)
  have 4: "\<forall>i<length (solution b). solution b' ! i = - 1
           \<or> (solution b' ! i = solution b ! i \<and> i \<notin> (\<lambda>p. nat (snd p)) ` set st)"
    using u unfolding unwound_def by (auto simp: b1 nth_list_update)
  from u have "size_b b' = size_b b \<and> shift_diag45 b' = shift_diag45 b
     \<and> length (solution b') = length (solution b)
     \<and> length (col_is_free b') = length (col_is_free b)
     \<and> length (diag45_is_free b') = length (diag45_is_free b)
     \<and> length (diag135_is_free b') = length (diag135_is_free b)"
    unfolding unwound_def by (simp add: b1)
  with 1 2 3 4 show ?thesis unfolding unwound_def by blast
qed

lemma unwound_after_remove:
  assumes rm: "remove_queen b x y = Inr b1"
    and u: "unwound b1 st b'"
  shows "unwound b ((x, y) # st) b'"
proof -
  from rm
  have b1: "b1 = b\<lparr>solution := (solution b)[nat y := - 1], col_is_free := (col_is_free b)[nat x := 1],
            diag45_is_free := (diag45_is_free b)[nat (wrap_int (wrap_int (y - x) + shift_diag45 b)) := 1],
            diag135_is_free := (diag135_is_free b)[nat (wrap_int (y + x)) := 1]\<rparr>"
    by (simp add: remove_queen_eq_Inr)
  have 1: "\<forall>i<length (col_is_free b). col_is_free b' ! i =
           (if i \<in> (\<lambda>p. nat (fst p)) ` set ((x, y) # st) then 1 else col_is_free b ! i)"
    using u unfolding unwound_def by (auto simp: b1 nth_list_update)
  have 2: "\<forall>i<length (diag45_is_free b). diag45_is_free b' ! i =
           (if i \<in> (\<lambda>p. nat (wrap_int (wrap_int (snd p - fst p) + shift_diag45 b))) ` set ((x, y) # st) then 1
            else diag45_is_free b ! i)"
    using u unfolding unwound_def by (auto simp: b1 nth_list_update)
  have 3: "\<forall>i<length (diag135_is_free b). diag135_is_free b' ! i =
           (if i \<in> (\<lambda>p. nat (wrap_int (snd p + fst p))) ` set ((x, y) # st) then 1 else diag135_is_free b ! i)"
    using u unfolding unwound_def by (auto simp: b1 nth_list_update)
  have 4: "\<forall>i<length (solution b). solution b' ! i = - 1
           \<or> (solution b' ! i = solution b ! i \<and> i \<notin> (\<lambda>p. nat (snd p)) ` set ((x, y) # st))"
  proof (intro allI impI)
    fix i assume i: "i < length (solution b)"
    from u i have h: "solution b' ! i = - 1
        \<or> (solution b' ! i = (solution b)[nat y := - 1] ! i \<and> i \<notin> (\<lambda>p. nat (snd p)) ` set st)"
      unfolding unwound_def by (simp add: b1)
    show "solution b' ! i = - 1
           \<or> (solution b' ! i = solution b ! i \<and> i \<notin> (\<lambda>p. nat (snd p)) ` set ((x, y) # st))"
    proof (cases "i = nat y")
      case True
      with h i show ?thesis by auto
    next
      case False
      with h i show ?thesis by auto
    qed
  qed
  from u have "size_b b' = size_b b \<and> shift_diag45 b' = shift_diag45 b
     \<and> length (solution b') = length (solution b)
     \<and> length (col_is_free b') = length (col_is_free b)
     \<and> length (diag45_is_free b') = length (diag45_is_free b)
     \<and> length (diag135_is_free b') = length (diag135_is_free b)"
    unfolding unwound_def by (simp add: b1)
  with 1 2 3 4 show ?thesis unfolding unwound_def by blast
qed

lemma run_ops_unwound:
  "flags_ok b \<Longrightarrow> well_nested st ops \<Longrightarrow> pre_ok b ops \<Longrightarrow>
   \<exists>b'. run_ops b ops = Inr b' \<and> unwound b st b'"
proof (induction st ops arbitrary: b rule: well_nested.induct)
  case (1 st)
  then have "st = []" by simp
  then have "unwound b st b" by (simp add: unwound_def)
  then show ?case by simp
next
  case (2 st x y ops)
  from "2.prems"(3) obtain b1 where cp: "can_place_queen b x y = Inr True"
    and pl: "place_queen b x y = Inr b1" and pre: "pre_ok b1 ops"
    by (auto split: sum.splits)
  have fl1: "flags_ok b1" using place_queen_flags_ok[OF "2.prems"(1) pl] .
  from "2.prems"(2) have wn: "well_nested ((x, y) # st) ops" by simp
  from "2.IH"[OF fl1 wn pre]
  obtain b' where r: "run_ops b1 ops = Inr b'" and u: "unwound b1 ((x, y) # st) b'" by blast
  from unwound_after_place[OF "2.prems"(1) cp pl u] r pl show ?case by simp
next
  case (3 x y ops)
  then show ?case by simp
next
  case (4 x' y' st x y ops)
  from "4.prems"(2) have eq: "x = x'" "y = y'" and wn: "well_nested st ops" by simp_all
  from "4.prems"(3) obtain b1 where rm: "remove_queen b x y = Inr b1" and pre: "pre_ok b1 ops"
    by (auto split: sum.splits)
  have fl1: "flags_ok b1" using remove_queen_flags_ok[OF "4.prems"(1) rm] .
  from "4.IH"[OF fl1 wn pre]
  obtain b' where r: "run_ops b1 ops = Inr b'" and u: "unwound b1 st b'" by blast
  from unwound_after_remove[OF rm u] r rm eq show ?case by simp
qed

lemma unwound_created_board:
  assumes "unwound (created_board n) [] b'"
  shows "b' = created_board n"
proof -
  let ?b = "created_board n"
  from assms have f: "size_b b' = size_b ?b" "shift_diag45 b' = shift_diag45 ?b"
    and l: "length (solution b') = length (solution ?b)"
      "length (col_is_free b') = length (col_is_free ?b)"
      "length (diag45_is_free b') = length (diag45_is_free ?b)"
      "length (diag135_is_free b') = length (diag135_is_free ?b)"
    and c: "\<forall>i<length (col_is_free ?b). col_is_free b' ! i = col_is_free ?b ! i"
    and d: "\<forall>i<length (diag45_is_free ?b). diag45_is_free b' ! i = diag45_is_free ?b ! i"
    and e: "\<forall>i<length (diag135_is_free ?b). diag135_is_free b' ! i = diag135_is_free ?b ! i"
    and s: "\<forall>i<length (solution ?b). solution b' ! i = - 1 \<or> solution b' ! i = solution ?b ! i"
    unfolding unwound_def by simp_all
  from s have s': "\<forall>i<length (solution ?b). solution b' ! i = solution ?b ! i"
    by (auto simp: created_board_def)
  have "solution b' = solution ?b" using l(1) s' by (simp add: list_eq_iff_nth_eq)
  moreover have "col_is_free b' = col_is_free ?b" using l(2) c by (simp add: list_eq_iff_nth_eq)
  moreover have "diag45_is_free b' = diag45_is_free ?b" using l(3) d by (simp add: list_eq_iff_nth_eq)
  moreover have "diag135_is_free b' = diag135_is_free ?b" using l(4) e by (simp add: list_eq_iff_nth_eq)
  ultimately show ?thesis using f by (intro Board.equality) simp_all
qed

text \<open>
  C6: a sequence of place and remove operations is well nested when every remove takes
  back the most recent place that is still open, at the same square, and no place is left
  open at the end. If such a sequence is run on the board returned by \<open>create_board n\<close>
  and every place is at an in-range square for which \<open>can_place_queen\<close> holds at that
  moment, then the run performs no out-of-bounds access and ends with exactly the freshly
  created board: size, shift, \<open>solution\<close> and the three tracking arrays all as created.
  The proof uses only the cells that the operations write, so it holds for every size,
  also where the diagonal length \<open>2n - 1\<close> wraps around.
\<close>

theorem well_nested_unwinds_to_fresh:
  assumes "0 < n" and "create_board n = Inr b0" and "well_nested [] ops" and "pre_ok b0 ops"
  shows "run_ops b0 ops = Inr b0"
proof -
  from assms(2) have b0: "b0 = created_board n" by (simp add: create_board_created)
  have fl: "flags_ok b0" by (auto simp: b0 flags_ok_def created_board_def)
  from run_ops_unwound[OF fl assms(3,4)]
  obtain b' where r: "run_ops b0 ops = Inr b'" and u: "unwound b0 [] b'" by auto
  from u have "b' = b0" unfolding b0 by (rule unwound_created_board)
  with r show ?thesis by simp
qed

theorem well_nested_unwinds_to_fresh_witness:
  "(0::int) < 4 \<and> create_board 4 = Inr (empty_board 4)
   \<and> well_nested [] [Place 1 0, Place 3 1, Remove 3 1, Place 0 0, Remove 0 0, Remove 1 0]
   \<and> pre_ok (empty_board 4) [Place 1 0, Place 3 1, Remove 3 1, Place 0 0, Remove 0 0, Remove 1 0]
   \<and> run_ops (empty_board 4) [Place 1 0, Place 3 1, Remove 3 1, Place 0 0, Remove 0 0, Remove 1 0]
       = Inr (empty_board 4)"
proof -
  let ?ops = "[Place 1 0, Place 3 1, Remove 3 1, Place 0 0, Remove 0 0, Remove 1 0]"
  have c: "create_board 4 = Inr (empty_board 4)" by (rule create_board_eq) simp_all
  have wn: "well_nested [] ?ops" by simp
  have pre: "pre_ok (empty_board 4) ?ops" by code_simp
  from well_nested_unwinds_to_fresh[OF _ c wn pre] c wn pre show ?thesis by simp
qed

section \<open>A dead end in the random prefix\<close>

lemma available_loop_none:
  "(\<forall>x'\<in>{0..<size_b b}. can_place_queen b x' y = Inr False) \<longrightarrow> 0 \<le> x \<longrightarrow>
     available_loop b y x acc = Inr acc"
proof (induct b y x acc rule: available_loop.induct)
  case (1 b y x acc)
  show ?case
  proof (intro impI)
    assume no: "\<forall>x'\<in>{0..<size_b b}. can_place_queen b x' y = Inr False" and x: "0 \<le> x"
    show "available_loop b y x acc = Inr acc"
    proof (cases "x < size_b b")
      case False
      then show ?thesis by (simp add: available_loop.simps[of b y x])
    next
      case True
      with no x have cp: "can_place_queen b x y = Inr False" by simp
      from "1"[OF True cp] no x have "available_loop b y (x + 1) acc = Inr acc" by simp
      with True cp show ?thesis by (simp add: available_loop.simps[of b y x])
    qed
  qed
qed

lemma available_loop_set:
  "available_loop b y x acc = Inr cols \<longrightarrow>
     set cols \<subseteq> set acc \<union> {x'. x \<le> x' \<and> x' < size_b b \<and> can_place_queen b x' y = Inr True}"
proof (induct b y x acc arbitrary: cols rule: available_loop.induct)
  case (1 b y x acc)
  show ?case
  proof
    assume r: "available_loop b y x acc = Inr cols"
    show "set cols \<subseteq> set acc \<union> {x'. x \<le> x' \<and> x' < size_b b \<and> can_place_queen b x' y = Inr True}"
    proof (cases "x < size_b b")
      case False
      with r have "cols = acc" by (simp add: available_loop.simps[of b y x])
      then show ?thesis by auto
    next
      case True
      show ?thesis
      proof (cases "can_place_queen b x y")
        case (Inl e)
        with True r show ?thesis by (simp add: available_loop.simps[of b y x])
      next
        case (Inr ok)
        with True r have "available_loop b y (x + 1) (if ok then acc @ [x] else acc) = Inr cols"
          by (simp add: available_loop.simps[of b y x])
        with "1"[OF True Inr, of cols]
        have "set cols \<subseteq> set (if ok then acc @ [x] else acc)
            \<union> {x'. x + 1 \<le> x' \<and> x' < size_b b \<and> can_place_queen b x' y = Inr True}"
          by simp
        with True Inr show ?thesis by (cases ok) auto
      qed
    qed
  qed
qed

lemma prefix_reaches_same_result:
  "prefix_reaches rng k c c' \<Longrightarrow>
     solve_lv_loop rng (fst c) k (fst (snd c)) (snd (snd c))
       = solve_lv_loop rng (fst c') k (fst (snd c')) (snd (snd c'))"
proof (induct rule: prefix_reaches.induct)
  case here
  show ?case by simp
next
  case (step b y s cols b1)
  have "solve_lv_loop rng b k y s = solve_lv_loop rng b1 k (y + 1) (Suc s)"
    using step(3,4,5,6) by (subst solve_lv_loop.simps) simp
  with step(2) show ?case by simp
qed

lemma prefix_reaches_search_reach:
  "prefix_reaches rng k c c' \<Longrightarrow> search_reach n (fst c) (fst (snd c)) \<Longrightarrow>
     search_reach n (fst c') (fst (snd c'))"
proof (induct rule: prefix_reaches.induct)
  case here
  then show ?case by simp
next
  case (step b y s cols b1)
  then have sr: "search_reach n b y" by simp
  let ?x = "cols ! (rng s mod length cols)"
  from step(5) have "?x \<in> set cols" by (intro nth_mem) simp
  with available_loop_set[of b y 0 "[]" cols] step(4)
  have "0 \<le> ?x" "?x < size_b b" "can_place_queen b ?x y = Inr True" by auto
  from search_reach.place[OF sr this step(6)] show ?case by simp
qed

text \<open>
  C8: \<open>prefix_reaches rng k (b0, 0, s0) (b, y, s)\<close> says that the random-prefix loop of
  \<open>solve_lv\<close>, started on \<open>b0\<close> with random state \<open>s0\<close>, stands at row \<open>y\<close> with board
  \<open>b\<close> and random state \<open>s\<close>. If \<open>b0\<close> is the empty board of size \<open>n > 0\<close>, \<open>y\<close> is below
  the number of random queens and \<open>can_place_queen\<close> is false for every column of row
  \<open>y\<close>, then \<open>solve_lv\<close> returns false with exactly that board and random state: rows
  \<open>0..y-1\<close> still hold their queens, rows from \<open>y\<close> on are unplaced, and for \<open>y > 0\<close> the
  board is not the reset board.
\<close>

theorem solve_lv_dead_end:
  assumes "0 < n" and "create_board n = Inr b0"
    and "prefix_reaches rng k (b0, 0, s0) (b, y, s)"
    and "y < k"
    and "\<forall>x\<in>{0..<n}. can_place_queen b x y = Inr False"
  shows "solve_lv rng b0 k s0 = Inr (b, False, s)
     \<and> size_b b = n \<and> row_order b y \<and> (0 < y \<longrightarrow> b \<noteq> b0)"
proof -
  from assms(1,2) have sr0: "search_reach n b0 0" by (rule search_reach.start)
  from prefix_reaches_search_reach[OF assms(3), of n] sr0
  have sr: "search_reach n b y" by simp
  from search_reach_rows[OF sr] have n: "size_b b = n" and ro: "row_order b y" by simp_all
  from ro have y0: "0 \<le> y" by (simp add: row_order_def)
  from assms(5) n have "available_loop b y 0 [] = Inr []"
    using available_loop_none[of b y 0 "[]"] by simp
  with assms(4) have "solve_lv_loop rng b k y s = Inr (b, False, s)"
    by (subst solve_lv_loop.simps) simp
  with prefix_reaches_same_result[OF assms(3)]
  have res: "solve_lv rng b0 k s0 = Inr (b, False, s)" by (simp add: solve_lv_def)
  have "b \<noteq> b0" if "0 < y"
  proof
    assume "b = b0"
    with assms(2) have "b = created_board n" by (simp add: create_board_created)
    then have "solution b ! nat 0 = - 1"
      using assms(1) by (simp add: created_board_def)
    moreover from that have "(0::int) \<in> {0..<y}" by simp
    with ro have "solution b ! nat 0 \<noteq> - 1" unfolding row_order_def by blast
    ultimately show False by simp
  qed
  with res n ro show ?thesis by simp
qed

theorem solve_lv_dead_end_witness:
  "(0::int) < 4 \<and> create_board 4 = Inr (empty_board 4)
   \<and> prefix_reaches (\<lambda>i. 0) 3 (empty_board 4, 0, 0)
        (\<lparr>size_b = 4, shift_diag45 = 3, solution = [0, 2, - 1, - 1],
           col_is_free = [0, 1, 0, 1], diag45_is_free = [1, 1, 0, 0, 1, 1, 1],
           diag135_is_free = [0, 1, 1, 0, 1, 1, 1]\<rparr>, 2, 2)
   \<and> (2::int) < 3
   \<and> solve_lv (\<lambda>i. 0) (empty_board 4) 3 0 =
        Inr (\<lparr>size_b = 4, shift_diag45 = 3, solution = [0, 2, - 1, - 1],
           col_is_free = [0, 1, 0, 1], diag45_is_free = [1, 1, 0, 0, 1, 1, 1],
           diag135_is_free = [0, 1, 1, 0, 1, 1, 1]\<rparr>, False, 2)
   \<and> row_order \<lparr>size_b = 4, shift_diag45 = 3, solution = [0, 2, - 1, - 1],
           col_is_free = [0, 1, 0, 1], diag45_is_free = [1, 1, 0, 0, 1, 1, 1],
           diag135_is_free = [0, 1, 1, 0, 1, 1, 1]\<rparr> 2"
proof -
  let ?rng = "\<lambda>i::nat. 0::nat"
  let ?b0 = "empty_board 4"
  let ?b1 = "\<lparr>size_b = 4, shift_diag45 = 3, solution = [0, - 1, - 1, - 1],
           col_is_free = [0, 1, 1, 1], diag45_is_free = [1, 1, 1, 0, 1, 1, 1],
           diag135_is_free = [0, 1, 1, 1, 1, 1, 1]\<rparr>"
  let ?b2 = "\<lparr>size_b = 4, shift_diag45 = 3, solution = [0, 2, - 1, - 1],
           col_is_free = [0, 1, 0, 1], diag45_is_free = [1, 1, 0, 0, 1, 1, 1],
           diag135_is_free = [0, 1, 1, 0, 1, 1, 1]\<rparr>"
  have c: "create_board 4 = Inr ?b0" by (rule create_board_eq) simp_all
  have p0: "prefix_reaches ?rng 3 (?b0, 0, 0) (?b0, 0, 0)" by (rule prefix_reaches.here)
  have a0: "available_loop ?b0 0 0 [] = Inr [0, 1, 2, 3]" by code_simp
  have l0: "place_queen ?b0 ([0, 1, 2, 3] ! (?rng 0 mod length [0, 1, 2, 3 :: int])) 0 = Inr ?b1"
    by code_simp
  have p1: "prefix_reaches ?rng 3 (?b0, 0, 0) (?b1, 0 + 1, Suc 0)"
    by (rule prefix_reaches.step[OF p0 _ a0 _ l0]) simp_all
  have a1: "available_loop ?b1 (0 + 1) 0 [] = Inr [2, 3]" by code_simp
  have l1: "place_queen ?b1 ([2, 3] ! (?rng (Suc 0) mod length [2, 3 :: int])) (0 + 1) = Inr ?b2"
    by code_simp
  have "prefix_reaches ?rng 3 (?b0, 0, 0) (?b2, 0 + 1 + 1, Suc (Suc 0))"
    by (rule prefix_reaches.step[OF p1 _ a1 _ l1]) simp_all
  then have p2: "prefix_reaches ?rng 3 (?b0, 0, 0) (?b2, 2, 2)"
    by (simp add: numeral_2_eq_2)
  have dead: "\<forall>x\<in>{0..<4}. can_place_queen ?b2 x 2 = Inr False" by code_simp
  from solve_lv_dead_end[OF _ c p2 _ dead] c p2 show ?thesis by simp
qed

section \<open>The Las Vegas search returns only solutions\<close>

lemma solve_lv_loop_search_reach:
  assumes small: "2 * n - 1 \<le> 2147483647"
  shows "search_reach n b y \<and> y \<le> k \<longrightarrow> solve_lv_loop rng b k y s = Inr (b', r, s') \<longrightarrow>
     (\<exists>y'. search_reach n b' y') \<and> (r \<longrightarrow> search_reach n b' n)"
proof (induct rng b k y s rule: solve_lv_loop.induct)
  case (1 rng b k y s)
  show ?case
  proof (intro impI, elim conjE)
    assume sr: "search_reach n b y" and yk: "y \<le> k"
      and res: "solve_lv_loop rng b k y s = Inr (b', r, s')"
    show "(\<exists>y'. search_reach n b' y') \<and> (r \<longrightarrow> search_reach n b' n)"
    proof (cases "y < k")
      case False
      with yk have ky: "k = y" by simp
      from False res have bt: "backtrack b k = Inr (b', r)"
        by (auto simp: solve_lv_loop.simps[of rng b k y s] split: sum.splits prod.splits)
      show ?thesis
      proof (cases r)
        case True
        with bt ky backtrack_sound(1)[OF sr _ small, of b'] show ?thesis by auto
      next
        case False
        with bt ky backtrack_failure(1)[OF sr _ small, of b'] sr show ?thesis by auto
      qed
    next
      case True
      show ?thesis
      proof (cases "available_loop b y 0 []")
        case (Inl e)
        with True res show ?thesis by (simp add: solve_lv_loop.simps[of rng b k y s])
      next
        case (Inr cols)
        show ?thesis
        proof (cases "length cols = 0")
          case e: True
          with Inr True res have "b' = b" "\<not> r"
            by (simp_all add: solve_lv_loop.simps[of rng b k y s])
          with sr show ?thesis by auto
        next
          case ne: False
          let ?x = "cols ! (rng s mod length cols)"
          show ?thesis
          proof (cases "place_queen b ?x y")
            case (Inl e)
            with ne Inr True res show ?thesis by (simp add: solve_lv_loop.simps[of rng b k y s])
          next
            case pl: (Inr b1)
            from ne have "?x \<in> set cols" by (intro nth_mem) simp
            with available_loop_set[of b y 0 "[]" cols] Inr
            have "0 \<le> ?x" "?x < size_b b" "can_place_queen b ?x y = Inr True" by auto
            from search_reach.place[OF sr this pl] have sr1: "search_reach n b1 (y + 1)" .
            from pl ne Inr True res
            have "solve_lv_loop rng b1 k (y + 1) (Suc s) = Inr (b', r, s')"
              by (simp add: solve_lv_loop.simps[of rng b k y s])
            with "1"[OF True Inr ne pl] sr1 True show ?thesis by simp
          qed
        qed
      qed
    qed
  qed
qed

text \<open>
  The boards the searches return are boards of \<open>search_reach\<close>, and a reported success
  comes with a complete board: a Las Vegas run never returns a wrong answer.
\<close>

lemma solve_lv_sound:
  assumes "0 < n" and "0 \<le> k" and "solve_lv rng (empty_board n) k s = Inr (b', True, s')"
    and nb: "n \<le> 1073741824"
  shows "search_reach n b' n" and "is_solution n (solution b')"
    and "print_board b' = Inr (solution b')"
proof -
  from nb have small: "2 * n - 1 \<le> 2147483647" by simp
  from solve_lv_loop_search_reach[OF small, of "empty_board n" 0 k rng s b' True s']
    search_reach_empty_board[OF assms(1) nb] assms(2,3)
  show sr: "search_reach n b' n" by (simp add: solve_lv_def)
  from search_reach_inv[OF sr small] have c: "consistent b'" and n: "size_b b' = n"
    and ro: "row_order b' n" by simp_all
  from complete_rows_solution[OF c] ro n show "is_solution n (solution b')" by simp
  from c show "print_board b' = Inr (solution b')" by (simp add: consistent_def print_board_wf)
qed

lemma available_loop_returns:
  "wf_board b \<and> 0 \<le> y \<and> y < size_b b \<and> 0 \<le> x \<longrightarrow> (\<exists>cols. available_loop b y x acc = Inr cols)"
proof (induct b y x acc rule: available_loop.induct)
  case (1 b y x acc)
  show ?case
  proof (intro impI, elim conjE)
    assume wf: "wf_board b" and y: "0 \<le> y" "y < size_b b" and x: "0 \<le> x"
    show "\<exists>cols. available_loop b y x acc = Inr cols"
    proof (cases "x < size_b b")
      case False
      then show ?thesis by (simp add: available_loop.simps[of b y x])
    next
      case True
      obtain ok where cp: "can_place_queen b x y = Inr ok"
        using can_place_queen_wf[OF wf x True y] by blast
      from "1"[OF True cp] wf y x
      obtain cols where "available_loop b y (x + 1) (if ok then acc @ [x] else acc) = Inr cols"
        by auto
      with True cp show ?thesis by (simp add: available_loop.simps[of b y x])
    qed
  qed
qed

lemma solve_lv_loop_returns:
  assumes small: "2 * n - 1 \<le> 2147483647"
  shows "search_reach n b y \<and> y \<le> k \<and> k \<le> n \<longrightarrow> (\<exists>res. solve_lv_loop rng b k y s = Inr res)"
proof (induct rng b k y s rule: solve_lv_loop.induct)
  case (1 rng b k y s)
  show ?case
  proof (intro impI, elim conjE)
    assume sr: "search_reach n b y" and yk: "y \<le> k" and kn: "k \<le> n"
    from search_reach_inv[OF sr small] have c: "consistent b" and n: "size_b b = n"
      and ro: "row_order b y" by simp_all
    from c have wf: "wf_board b" by (simp add: consistent_def)
    from ro have y0: "0 \<le> y" by (simp add: row_order_def)
    show "\<exists>res. solve_lv_loop rng b k y s = Inr res"
    proof (cases "y < k")
      case False
      with yk have ky: "k = y" by simp
      from backtrack_search_aux(1)[OF small, of b y] sr
      obtain b1 r where "backtrack b y = Inr (b1, r)" by auto
      then have "backtrack b k = Inr (b1, r)" by (simp add: ky)
      with False have "solve_lv_loop rng b k y s = Inr (b1, r, s)"
        by (simp add: solve_lv_loop.simps[of rng b k y s])
      then show ?thesis by blast
    next
      case True
      with kn n have yl: "y < size_b b" by simp
      from available_loop_returns[of b y 0 "[]"] wf y0 yl
      obtain cols where av: "available_loop b y 0 [] = Inr cols" by auto
      show ?thesis
      proof (cases "length cols = 0")
        case e: True
        with av True have "solve_lv_loop rng b k y s = Inr (b, False, s)"
          by (simp add: solve_lv_loop.simps[of rng b k y s])
        then show ?thesis by blast
      next
        case ne: False
        let ?x = "cols ! (rng s mod length cols)"
        from ne have "?x \<in> set cols" by (intro nth_mem) simp
        with available_loop_set[of b y 0 "[]" cols] av
        have x: "0 \<le> ?x" "?x < size_b b" and cp: "can_place_queen b ?x y = Inr True" by auto
        obtain b1 where pl: "place_queen b ?x y = Inr b1"
          using place_queen_wf[OF wf x y0 yl] by blast
        from search_reach.place[OF sr x cp pl] have sr1: "search_reach n b1 (y + 1)" .
        from "1"[OF True av ne pl] sr1 True kn
        obtain res where "solve_lv_loop rng b1 k (y + 1) (Suc s) = Inr res" by auto
        with pl ne av True have "solve_lv_loop rng b k y s = Inr res"
          by (simp add: solve_lv_loop.simps[of rng b k y s])
        then show ?thesis by blast
      qed
    qed
  qed
qed

lemma repeat_lv_loop_sound_aux:
  assumes wf: "wf_board b0" and k: "0 \<le> k0" "k0 \<le> size_b b0"
  shows "repeat_lv_loop rng b k t s = Some v \<Longrightarrow>
     wf_board b \<longrightarrow> size_b b = size_b b0 \<longrightarrow> k = k0 \<longrightarrow>
       (\<exists>b' t' s'. v = Inr (b', t', s') \<and> search_reach (size_b b0) b' (size_b b0))"
proof (induct rule: repeat_lv_loop.raw_induct[rotated 1, consumes 1])
  case (1 loop rng b k t s v)
  show ?case
  proof (intro impI)
    assume wfb: "wf_board b" and n: "size_b b = size_b b0" and kk: "k = k0"
    let ?n = "size_b b0"
    from wf have n0: "0 < ?n" and small: "2 * ?n - 1 \<le> 2147483647"
      by (simp_all add: wf_board_def)
    from small have nb: "?n \<le> 1073741824" by simp
    have rb: "reset_board b = Inr (empty_board ?n)" using reset_board_wf[OF wfb] n by simp
    have sr: "search_reach ?n (empty_board ?n) 0" using search_reach_empty_board[OF n0 nb] .
    from solve_lv_loop_returns[OF small, of "empty_board ?n" 0 k rng s] sr k kk
    obtain b1 r s1 where sl: "solve_lv rng (empty_board ?n) k s = Inr (b1, r, s1)"
      by (auto simp: solve_lv_def)
    from solve_lv_loop_search_reach[OF small, of "empty_board ?n" 0 k rng s b1 r s1] sr sl k kk
    have y: "\<exists>y'. search_reach ?n b1 y'" and yes: "r \<longrightarrow> search_reach ?n b1 ?n"
      by (simp_all add: solve_lv_def)
    show "\<exists>b' t' s'. v = Inr (b', t', s') \<and> search_reach ?n b' ?n"
    proof (cases r)
      case True
      with "1"(2) rb sl have v: "v = Inr (b1, wrap_int (t + 1), s1)" by simp
      with yes True show ?thesis by simp
    next
      case False
      with "1"(2) rb sl have "loop rng b1 k (wrap_int (t + 1)) s1 = Some v" by simp
      moreover from y obtain y' where "search_reach ?n b1 y'" ..
      from search_reach_inv[OF this small] have "wf_board b1" "size_b b1 = ?n"
        by (simp_all add: consistent_def)
      ultimately show ?thesis using "1"(1) kk by blast
    qed
  qed
qed

lemma repeat_lv_sound:
  assumes "wf_board b" and "0 \<le> k" and "k \<le> size_b b" and "repeat_lv rng b k s = Some v"
  shows "\<exists>b' t s'. v = Inr (b', t, s') \<and> is_solution (size_b b) (solution b')
           \<and> print_board b' = Inr (solution b')"
proof -
  from repeat_lv_loop_sound_aux[OF assms(1,2,3), of rng b k 0 s v] assms(1,4)
  obtain b' t s' where v: "v = Inr (b', t, s')"
    and sr: "search_reach (size_b b) b' (size_b b)"
    by (auto simp: repeat_lv_def)
  from assms(1) have "2 * size_b b - 1 \<le> 2147483647" by (simp add: wf_board_def)
  from search_reach_inv[OF sr this] have c: "consistent b'" and n: "size_b b' = size_b b"
    and ro: "row_order b' (size_b b)" by simp_all
  from complete_rows_solution[OF c] ro n have "is_solution (size_b b) (solution b')" by simp
  moreover from c have "print_board b' = Inr (solution b')"
    by (simp add: consistent_def print_board_wf)
  ultimately show ?thesis using v by simp
qed

section \<open>Concrete runs\<close>

text \<open>
  C2: for each board size \<open>n\<close> from 1 to 8, \<open>backtrack\<close> started at row 0 on the board
  returned by \<open>create_board n\<close> returns false exactly for \<open>n = 2\<close> and \<open>n = 3\<close>, and true
  for \<open>n = 1\<close> and \<open>n = 4, ..., 8\<close>; no run reads or writes out of bounds.
\<close>

theorem backtrack_small_sizes:
  "map (\<lambda>n. case create_board n of
               Inl e \<Rightarrow> Inl e
             | Inr b \<Rightarrow> map_sum id snd (backtrack b 0)) [1, 2, 3, 4, 5, 6, 7, 8]
   = [Inr True, Inr False, Inr False, Inr True, Inr True, Inr True, Inr True, Inr True]"
  by code_simp

text \<open>
  C9: on the board of size 4 with no random queens, the search succeeds and leaves the
  queens of rows 0..3 in columns 1, 3, 0, 2, as \<open>print_board\<close> reads them off the board. This holds for \<open>backtrack\<close> from row 0, for
  \<open>solve_lv\<close> with \<open>random_queens = 0\<close> (which draws no random number) and for
  \<open>repeat_lv\<close>, which needs one trial.
\<close>

theorem size4_first_solution:
  "(case create_board 4 of
      Inl e \<Rightarrow> None
    | Inr b \<Rightarrow>
        Some (map_sum id (\<lambda>(b', r). (print_board b', r)) (backtrack b 0),
              map_sum id (\<lambda>(b', r, s'). (print_board b', r, s')) (solve_lv rng b 0 s),
              map_option (map_sum id (\<lambda>(b', t, s'). (print_board b', t, s')))
                (repeat_lv rng b 0 s)))
   = Some (Inr (Inr [1, 3, 0, 2], True), Inr (Inr [1, 3, 0, 2], True, s),
           Some (Inr (Inr [1, 3, 0, 2], 1, s)))"
  unfolding repeat_lv_def
  by (subst repeat_lv_loop.simps) code_simp

end
